theory Spec2Isabelle
  imports Main "HOL-Library.Word" "HOL-Library.Multiset"
begin

section \<open>Block-level execution profiling: the hot-block report and the BBV collector\<close>

text \<open>
  The two profiling plugins keep one record per translated block in a GLib hash table keyed
  by the block's start address. All counters are \<open>uint64_t\<close> and are modelled as 64-bit
  words, so \<open>+\<close>, \<open>-\<close> and \<open>*\<close> wrap as they do in C.

  The hash table is modelled as an association list with distinct keys. Lookup is
  \<open>map_of\<close>, insertion of a fresh key appends, and a traversal
  (\<open>g_hash_table_foreach\<close>, \<open>g_hash_table_get_values\<close>) walks the list from its head.
  GLib leaves the traversal order unspecified (it follows the hash slots, not the
  insertions); the list order stands for it. That an insertion appends is therefore a
  choice of the model, and no property below rests on it: the properties of the report
  are stated for every table, and where a concrete table is looked at, every order of its
  records is gone through.

  The GLib functions the plugins call (\<open>g_list_sort\<close>, \<open>g_str_has_prefix\<close>,
  \<open>g_ascii_strtoull\<close>) follow GLib's documentation. The mutex of the hot-block plugin
  is not modelled: callbacks are taken one after the other.
\<close>

type_synonym u64 = "64 word"

subsection \<open>What the emulator hands over at translation time\<close>

text \<open>
  Modelled from the spec: the emulator's translation-time view of a block, which the plugin
  API (not among the source files) hands to \<open>vcpu_tb_trans\<close>: the start address and the
  ordered list of instruction descriptors. A descriptor holds what
  \<open>qemu_plugin_insn_size\<close>, \<open>qemu_plugin_insn_data\<close> (the bytes behind the pointer),
  \<open>qemu_plugin_insn_disas\<close> and \<open>qemu_plugin_insn_symbol\<close> (\<open>None\<close> is \<open>NULL\<close>) return.
\<close>

record qemu_plugin_insn =
  insn_size :: nat
  insn_data :: "8 word list"
  insn_disas :: string
  insn_symbol :: "string option"

record qemu_plugin_tb =
  tb_vaddr :: u64
  tb_insns :: "qemu_plugin_insn list"

definition qemu_plugin_tb_vaddr :: "qemu_plugin_tb \<Rightarrow> u64" where
  "qemu_plugin_tb_vaddr tb = tb_vaddr tb"

definition qemu_plugin_tb_n_insns :: "qemu_plugin_tb \<Rightarrow> nat" where
  "qemu_plugin_tb_n_insns tb = length (tb_insns tb)"

text \<open>
  Modelled from the spec: a block without instructions is a protocol violation; it has no
  instruction to hand out, and \<open>qemu_plugin_tb_get_insn\<close> gives \<open>NULL\<close> for an index past
  the end.
\<close>

definition qemu_plugin_tb_get_insn :: "qemu_plugin_tb \<Rightarrow> nat \<Rightarrow> qemu_plugin_insn option" where
  "qemu_plugin_tb_get_insn tb idx =
     (if idx < length (tb_insns tb) then Some (tb_insns tb ! idx) else None)"

text \<open>
  Faults of the plugins themselves: a \<open>NULL\<close> pointer that is dereferenced, and an
  execution callback for a block that was never registered.
\<close>

datatype fault = NullDeref | UnknownBlock

text \<open>A little-endian load of the first \<open>k\<close> bytes, as the casts \<open>*(uint32_t *)\<close> and
  \<open>*(uint16_t *)\<close> read them on a little-endian host.\<close>

fun load_le :: "nat \<Rightarrow> 8 word list \<Rightarrow> u64" where
  "load_le 0 bs = 0"
| "load_le (Suc k) [] = 0"
| "load_le (Suc k) (b # bs) = ucast b + push_bit 8 (load_le k bs)"

subsection \<open>GLib's list sort\<close>

text \<open>
  \<open>g_list_sort\<close> is a top-down merge sort. The list is cut after its first
  \<open>length div 2\<close> cells, both parts are sorted, and the merge takes the head of the first
  part when the comparison is \<open>\<le> 0\<close> and the head of the second part otherwise.
\<close>

fun g_list_sort_merge :: "('a \<Rightarrow> 'a \<Rightarrow> int) \<Rightarrow> 'a list \<Rightarrow> 'a list \<Rightarrow> 'a list" where
  "g_list_sort_merge compare_func [] l2 = l2"
| "g_list_sort_merge compare_func l1 [] = l1"
| "g_list_sort_merge compare_func (a # l1) (b # l2) =
     (if compare_func a b \<le> 0
      then a # g_list_sort_merge compare_func l1 (b # l2)
      else b # g_list_sort_merge compare_func (a # l1) l2)"

function g_list_sort :: "'a list \<Rightarrow> ('a \<Rightarrow> 'a \<Rightarrow> int) \<Rightarrow> 'a list" where
  "g_list_sort list compare_func =
     (if length list \<le> 1 then list
      else g_list_sort_merge compare_func
             (g_list_sort (take (length list div 2) list) compare_func)
             (g_list_sort (drop (length list div 2) list) compare_func))"
  by pat_completeness auto
termination
  by (relation "measure (\<lambda>(list, compare_func). length list)") auto

subsection \<open>The hot-block plugin\<close>

text \<open>
  \<open>struct qemu_insn\<close>. The array is obtained from \<open>malloc\<close>, so \<open>data\<close> is only
  written for instructions of length 4 or 2; \<open>None\<close> is the indeterminate value left
  behind otherwise.
\<close>

record qemu_insn =
  len :: nat
  data :: "u64 option"
  disasm :: string

text \<open>\<open>struct TBExecCount\<close>. The \<open>next\<close> pointer is always \<open>NULL\<close> and is left out.\<close>

record TBExecCount =
  start_addr :: u64
  exec_count :: u64
  trans_count :: u64
  n_insns :: u64
  insns :: "qemu_insn list"
  symbol :: "string option"

type_synonym hot_blocks = "(u64 \<times> TBExecCount) list"

definition cmp_dynamic_insncount :: "TBExecCount \<Rightarrow> TBExecCount \<Rightarrow> int" where
  "cmp_dynamic_insncount ea eb =
     (if exec_count ea * n_insns ea > exec_count eb * n_insns eb then - 1 else 1)"

definition cmp_dynamic_execcount :: "TBExecCount \<Rightarrow> TBExecCount \<Rightarrow> int" where
  "cmp_dynamic_execcount ea eb = (if exec_count ea > exec_count eb then - 1 else 1)"

text \<open>The body of the snapshot loop of \<open>vcpu_tb_trans\<close> for one instruction.\<close>

definition snapshot_insn :: "qemu_plugin_insn \<Rightarrow> qemu_insn" where
  "snapshot_insn insn =
     \<lparr> len = insn_size insn,
       data = (if insn_size insn = 4 then Some (load_le 4 (insn_data insn))
               else if insn_size insn = 2 then Some (load_le 2 (insn_data insn))
               else None),
       disasm = insn_disas insn \<rparr>"

text \<open>Replace the record stored under a key (a write through the stored pointer).\<close>

fun update_block :: "u64 \<Rightarrow> ('r \<Rightarrow> 'r) \<Rightarrow> (u64 \<times> 'r) list \<Rightarrow> (u64 \<times> 'r) list" where
  "update_block k f [] = []"
| "update_block k f ((a, r) # ps) =
     (if a = k then (a, f r) # update_block k f ps else (a, r) # update_block k f ps)"

text \<open>
  \<open>vcpu_tb_trans\<close> of the hot-block plugin. The result is the new table and the key of
  the record whose \<open>exec_count\<close> the inline counter is bound to. A new block reads the
  symbol of instruction 0; for an empty block that instruction is \<open>NULL\<close>.
\<close>

definition vcpu_tb_trans_hot :: "hot_blocks \<Rightarrow> qemu_plugin_tb \<Rightarrow> fault + (hot_blocks \<times> u64)" where
  "vcpu_tb_trans_hot blocks tb =
     (let pc = qemu_plugin_tb_vaddr tb;
          insns = qemu_plugin_tb_n_insns tb;
          hash = pc
      in case map_of blocks hash of
           Some cnt \<Rightarrow>
             Inr (update_block hash (\<lambda>c. c\<lparr>trans_count := trans_count c + 1\<rparr>) blocks, hash)
         | None \<Rightarrow>
             (case qemu_plugin_tb_get_insn tb 0 of
                None \<Rightarrow> Inl NullDeref
              | Some insn0 \<Rightarrow>
                  Inr (blocks @
                         [(hash, \<lparr> start_addr = pc, exec_count = 0, trans_count = 1,
                                  n_insns = word_of_nat insns,
                                  insns = map snapshot_insn (take insns (tb_insns tb)),
                                  symbol = insn_symbol insn0 \<rparr>)],
                       hash)))"

text \<open>The inline counter registered by \<open>vcpu_tb_trans\<close>: one execution adds 1 to
  \<open>exec_count\<close> of the bound record.\<close>

definition tb_exec_inline :: "hot_blocks \<Rightarrow> u64 \<Rightarrow> fault + hot_blocks" where
  "tb_exec_inline blocks h =
     (case map_of blocks h of
        None \<Rightarrow> Inl UnknownBlock
      | Some cnt \<Rightarrow> Inr (update_block h (\<lambda>c. c\<lparr>exec_count := exec_count c + 1\<rparr>) blocks))"

text \<open>
  One row of a report section. The percentage is printed from the \<open>double\<close> quotient
  \<open>((double) pct_dividend * 100) / pct_divisor\<close>; the row keeps the two operands.
\<close>

record report_row =
  row_addr :: u64
  row_count :: u64
  pct_dividend :: u64
  pct_divisor :: u64
  row_symbol :: string
  row_disas :: "string list"

record report =
  collected :: nat
  by_insns :: "report_row list"
  by_execs :: "report_row list"
  dynamic_instruction_count :: u64
  blocks_executed :: nat

text \<open>
  The three loops of \<open>plugin_exit\<close>. Each is \<open>for (e = it; e->next; e = e->next)\<close>
  under \<open>if (it)\<close>: nothing is done for the empty list, and the body is not run for the
  last cell, whose \<open>next\<close> is \<open>NULL\<close>.
\<close>

fun total_loop :: "TBExecCount list \<Rightarrow> u64 \<Rightarrow> u64" where
  "total_loop [] total_insn_executed = total_insn_executed"
| "total_loop [e] total_insn_executed = total_insn_executed"
| "total_loop (e # es) total_insn_executed =
     total_loop es (total_insn_executed + n_insns e * exec_count e)"

fun insns_loop :: "TBExecCount list \<Rightarrow> u64 \<Rightarrow> report_row list" where
  "insns_loop [] total_insn_executed = []"
| "insns_loop [e] total_insn_executed = []"
| "insns_loop (e # es) total_insn_executed =
     \<lparr> row_addr = start_addr e,
       row_count = n_insns e * exec_count e,
       pct_dividend = n_insns e * exec_count e,
       pct_divisor = total_insn_executed,
       row_symbol = (case symbol e of Some s \<Rightarrow> s | None \<Rightarrow> []),
       row_disas = map disasm (take (unat (n_insns e)) (insns e)) \<rparr>
     # insns_loop es total_insn_executed"

fun execs_loop :: "TBExecCount list \<Rightarrow> u64 \<Rightarrow> report_row list" where
  "execs_loop [] total_insn_executed = []"
| "execs_loop [e] total_insn_executed = []"
| "execs_loop (e # es) total_insn_executed =
     \<lparr> row_addr = start_addr e,
       row_count = exec_count e,
       pct_dividend = exec_count e,
       pct_divisor = total_insn_executed,
       row_symbol = (case symbol e of Some s \<Rightarrow> s | None \<Rightarrow> []),
       row_disas = [] \<rparr> # execs_loop es total_insn_executed"

text \<open>\<open>g_hash_table_get_values\<close>: the values in the order of the traversal, which is the
  order of the list that stands for the table.\<close>

definition g_hash_table_get_values :: "(u64 \<times> 'r) list \<Rightarrow> 'r list" where
  "g_hash_table_get_values blocks = map snd blocks"

text \<open>
  \<open>plugin_exit\<close> of the hot-block plugin. The report is kept in its parts: the number of
  blocks of the heading, the rows of the two sections, and the two numbers of the summary.
\<close>

definition plugin_exit_hot :: "hot_blocks \<Rightarrow> report" where
  "plugin_exit_hot blocks =
     (let counts = g_hash_table_get_values blocks;
          it = g_list_sort counts cmp_dynamic_insncount;
          total_insn_executed = total_loop it 0;
          it2 = g_list_sort (g_hash_table_get_values blocks) cmp_dynamic_execcount
      in \<lparr> collected = length blocks,
           by_insns = insns_loop it total_insn_executed,
           by_execs = execs_loop it2 total_insn_executed,
           dynamic_instruction_count = total_insn_executed,
           blocks_executed = length blocks \<rparr>)"

subsection \<open>The BBV plugin\<close>

text \<open>\<open>struct BBExecutionFrequency\<close>.\<close>

record BBExecutionFrequency =
  tbid :: u64
  tb_pc :: u64
  n_insns :: u64
  tb_dynamic_count :: u64
  symbol :: "string option"
  offset_from_symbol :: u64

text \<open>
  The globals of the plugin. An output stream is \<open>None\<close> while its \<open>FILE *\<close> is
  \<open>NULL\<close>; otherwise it holds what has been written to it, line by line. A line of the
  BBV stream is the list of its \<open>:tbid:count\<close> pairs after the leading \<open>T\<close>; a line of
  the symbol map is \<open>F:tbid:pc:symbol\<close>.
\<close>

type_synonym bbv_line = "(u64 \<times> u64) list"
type_synonym pc_line = "u64 \<times> u64 \<times> string"

record bbv_state =
  blocks :: "(u64 \<times> BBExecutionFrequency) list"
  insns_interval_length :: u64
  bb_out :: "bbv_line list option"
  pc_out :: "pc_line list option"
  insns_executed :: u64
  next_tbid :: u64

definition bbv_globals :: bbv_state where
  "bbv_globals =
     \<lparr> blocks = [], insns_interval_length = 100000000, bb_out = None, pc_out = None,
       insns_executed = 0, next_tbid = 0 \<rparr>"

text \<open>\<open>cmp_tbid\<close> returns the difference of two \<open>uint64_t\<close> as a \<open>gint\<close>: its low 32
  bits, read as a signed number.\<close>

definition cmp_tbid :: "BBExecutionFrequency \<Rightarrow> BBExecutionFrequency \<Rightarrow> int" where
  "cmp_tbid info_a info_b = sint (ucast (tbid info_a - tbid info_b) :: 32 word)"

text \<open>\<open>print_bb_freq\<close> on one record: the pair written (if any) and the record after.\<close>

definition print_bb_freq :: "BBExecutionFrequency \<Rightarrow> bbv_line \<times> BBExecutionFrequency" where
  "print_bb_freq info =
     (if tb_dynamic_count info \<noteq> 0
      then ([(tbid info, tb_dynamic_count info)], info\<lparr>tb_dynamic_count := 0\<rparr>)
      else ([], info))"

text \<open>\<open>g_hash_table_foreach (blocks, print_bb_freq, NULL)\<close>.\<close>

fun foreach_print_bb_freq ::
  "(u64 \<times> BBExecutionFrequency) list \<Rightarrow> bbv_line \<times> (u64 \<times> BBExecutionFrequency) list" where
  "foreach_print_bb_freq [] = ([], [])"
| "foreach_print_bb_freq ((key, info) # rest) =
     (let (out1, info') = print_bb_freq info;
          (out2, rest') = foreach_print_bb_freq rest
      in (out1 @ out2, (key, info') # rest'))"

definition handle_interval_expiry :: "bbv_state \<Rightarrow> bbv_state" where
  "handle_interval_expiry s =
     (case bb_out s of
        None \<Rightarrow> s
      | Some written \<Rightarrow>
          (let (line, blocks') = foreach_print_bb_freq (blocks s)
           in s\<lparr>bb_out := Some (written @ [line]), blocks := blocks'\<rparr>))"

text \<open>
  \<open>vcpu_tb_exec\<close>. The callback's \<open>udata\<close> is the record registered at translation
  time, named here by its key in the table.
\<close>

definition vcpu_tb_exec :: "bbv_state \<Rightarrow> u64 \<Rightarrow> fault + bbv_state" where
  "vcpu_tb_exec s udata =
     (case map_of (blocks s) udata of
        None \<Rightarrow> Inl UnknownBlock
      | Some info \<Rightarrow>
          (let s1 = s\<lparr>insns_executed := insns_executed s + n_insns info\<rparr>;
               s2 = s1\<lparr>blocks := update_block udata
                        (\<lambda>i. i\<lparr>tb_dynamic_count := tb_dynamic_count i + n_insns i\<rparr>) (blocks s1)\<rparr>
           in if insns_executed s2 > insns_interval_length s2 then
                (let s3 = s2\<lparr>insns_executed := insns_executed s2 - insns_interval_length s2\<rparr>;
                     s4 = s3\<lparr>blocks := update_block udata
                        (\<lambda>i. i\<lparr>tb_dynamic_count := tb_dynamic_count i - insns_executed s3\<rparr>)
                        (blocks s3)\<rparr>;
                     s5 = handle_interval_expiry s4
                 in Inr (s5\<lparr>blocks := update_block udata
                        (\<lambda>i. i\<lparr>tb_dynamic_count := insns_executed s5\<rparr>) (blocks s5)\<rparr>))
              else Inr s2))"

text \<open>\<open>vcpu_tb_trans\<close> of the BBV plugin; the key returned names the record that is
  registered as \<open>udata\<close> of the execution callback.\<close>

definition vcpu_tb_trans_bbv :: "bbv_state \<Rightarrow> qemu_plugin_tb \<Rightarrow> fault + (bbv_state \<times> u64)" where
  "vcpu_tb_trans_bbv s tb =
     (let pc = qemu_plugin_tb_vaddr tb;
          n_insns = qemu_plugin_tb_n_insns tb
      in case map_of (blocks s) pc of
           Some info \<Rightarrow> Inr (s, pc)
         | None \<Rightarrow>
             (case qemu_plugin_tb_get_insn tb 0 of
                None \<Rightarrow> Inl NullDeref
              | Some insn0 \<Rightarrow>
                  Inr (s\<lparr>blocks := blocks s @
                            [(pc, \<lparr> tbid = next_tbid s, tb_pc = pc,
                                   n_insns = word_of_nat n_insns, tb_dynamic_count = 0,
                                   symbol = insn_symbol insn0, offset_from_symbol = 0 \<rparr>)],
                         next_tbid := next_tbid s + 1\<rparr>,
                       pc)))"

text \<open>The symbol-map loop of \<open>plugin_exit\<close>: \<open>for (e = it; e->next; e = e->next)\<close> with no
  test of \<open>it\<close> itself, so an empty list dereferences \<open>NULL\<close>.\<close>

fun pc_loop :: "BBExecutionFrequency list \<Rightarrow> fault + pc_line list" where
  "pc_loop [] = Inl NullDeref"
| "pc_loop [e] = Inr []"
| "pc_loop (e # es) =
     (case pc_loop es of
        Inl f \<Rightarrow> Inl f
      | Inr ls \<Rightarrow> Inr ((tbid e, tb_pc e, (case symbol e of Some s \<Rightarrow> s | None \<Rightarrow> [])) # ls))"

text \<open>
  \<open>plugin_exit\<close> of the BBV plugin: the fault it ends in, if any, and the globals with
  what has been written to the two streams up to that point.
\<close>

definition plugin_exit_bbv :: "bbv_state \<Rightarrow> fault option \<times> bbv_state" where
  "plugin_exit_bbv s =
     (let s1 = handle_interval_expiry s;
          blocks_values = g_hash_table_get_values (blocks s1)
      in case pc_out s1 of
           None \<Rightarrow> (None, s1)
         | Some written \<Rightarrow>
             (case pc_loop (g_list_sort blocks_values cmp_tbid) of
                Inl f \<Rightarrow> (Some f, s1)
              | Inr ls \<Rightarrow> (None, s1\<lparr>pc_out := Some (written @ ls)\<rparr>)))"

subsection \<open>Option parsing of the BBV plugin\<close>

definition g_str_has_prefix :: "string \<Rightarrow> string \<Rightarrow> bool" where
  "g_str_has_prefix str pre = (take (length pre) str = pre)"

text \<open>
  \<open>g_ascii_strtoull (nptr, NULL, 10)\<close>: leading white space is skipped, one sign is
  accepted, the longest run of decimal digits is converted; no digit gives 0, a value
  above \<open>G_MAXUINT64\<close> gives \<open>G_MAXUINT64\<close>, and a minus sign negates the result.
\<close>

definition g_ascii_isspace :: "char \<Rightarrow> bool" where
  "g_ascii_isspace c = ((of_char c :: nat) \<in> {32, 12, 10, 13, 9, 11})"

definition g_ascii_isdigit :: "char \<Rightarrow> bool" where
  "g_ascii_isdigit c = (48 \<le> (of_char c :: nat) \<and> (of_char c :: nat) \<le> 57)"

fun digits_value :: "string \<Rightarrow> nat \<Rightarrow> nat" where
  "digits_value [] acc = acc"
| "digits_value (c # cs) acc = digits_value cs (acc * 10 + ((of_char c :: nat) - 48))"

definition g_ascii_strtoull :: "string \<Rightarrow> u64" where
  "g_ascii_strtoull nptr =
     (let s = dropWhile g_ascii_isspace nptr;
          negative = (s \<noteq> [] \<and> hd s = CHR ''-'');
          s' = (if s \<noteq> [] \<and> (hd s = CHR ''-'' \<or> hd s = CHR ''+'') then tl s else s);
          ds = takeWhile g_ascii_isdigit s';
          v = digits_value ds 0;
          result = (if v > 18446744073709551615 then - 1 else word_of_nat v)
      in if negative then - result else result)"

text \<open>
  The option loop of \<open>qemu_plugin_install\<close>. It carries the two file names and the
  interval length; \<open>None\<close> is the early \<open>return -1\<close>.
\<close>

fun parse_options ::
  "string list \<Rightarrow> string option \<times> string option \<times> u64 \<Rightarrow>
   (string option \<times> string option \<times> u64) option" where
  "parse_options [] acc = Some acc"
| "parse_options (opt # argv) (bb_out_file_name, pc_out_file_name, interval) =
     (if g_str_has_prefix opt ''bb-out-file=''
      then parse_options argv (Some (drop 12 opt), pc_out_file_name, interval)
      else if g_str_has_prefix opt ''pc-out-file=''
      then parse_options argv (bb_out_file_name, Some (drop 12 opt), interval)
      else if g_str_has_prefix opt ''interval-size=''
      then parse_options argv (bb_out_file_name, pc_out_file_name, g_ascii_strtoull (drop 14 opt))
      else None)"

text \<open>
  \<open>qemu_plugin_install\<close>: the return value, and the globals when the plugin has been
  installed. \<open>fopen_w name\<close> tells whether \<open>fopen (name, "w")\<close> succeeds.
\<close>

definition qemu_plugin_install :: "(string \<Rightarrow> bool) \<Rightarrow> string list \<Rightarrow> int \<times> bbv_state option" where
  "qemu_plugin_install fopen_w argv =
     (case parse_options argv (None, None, insns_interval_length bbv_globals) of
        None \<Rightarrow> (- 1, None)
      | Some (bb_out_file_name, pc_out_file_name, interval) \<Rightarrow>
          (0, Some (bbv_globals
                \<lparr> insns_interval_length := interval,
                  bb_out := (case bb_out_file_name of
                               Some name \<Rightarrow> if fopen_w name then Some [] else None
                             | None \<Rightarrow> None),
                  pc_out := (case pc_out_file_name of
                               Some name \<Rightarrow> if fopen_w name then Some [] else None
                             | None \<Rightarrow> None) \<rparr>)))"

subsection \<open>Runs of the BBV plugin\<close>

text \<open>What the emulator does during a run: it translates a block or executes a block
  that has been translated.\<close>

datatype event = Translate qemu_plugin_tb | Execute u64

fun step :: "bbv_state \<Rightarrow> event \<Rightarrow> fault + bbv_state" where
  "step s (Translate tb) =
     (case vcpu_tb_trans_bbv s tb of Inl f \<Rightarrow> Inl f | Inr (s', h) \<Rightarrow> Inr s')"
| "step s (Execute h) = vcpu_tb_exec s h"

fun run :: "bbv_state \<Rightarrow> event list \<Rightarrow> fault + bbv_state" where
  "run s [] = Inr s"
| "run s (ev # evs) = (case step s ev of Inl f \<Rightarrow> Inl f | Inr s' \<Rightarrow> run s' evs)"

subsection \<open>Runs of the hot-block plugin\<close>

fun hot_step :: "hot_blocks \<Rightarrow> event \<Rightarrow> fault + hot_blocks" where
  "hot_step bs (Translate tb) =
     (case vcpu_tb_trans_hot bs tb of Inl f \<Rightarrow> Inl f | Inr (bs', h) \<Rightarrow> Inr bs')"
| "hot_step bs (Execute h) = tb_exec_inline bs h"

fun hot_run :: "hot_blocks \<Rightarrow> event list \<Rightarrow> fault + hot_blocks" where
  "hot_run bs [] = Inr bs"
| "hot_run bs (ev # evs) = (case hot_step bs ev of Inl f \<Rightarrow> Inl f | Inr bs' \<Rightarrow> hot_run bs' evs)"

subsection \<open>Quantities the properties speak about\<close>

text \<open>The instructions a BBV line accounts for, and those of a whole stream.\<close>

definition line_total :: "bbv_line \<Rightarrow> u64" where
  "line_total line = sum_list (map snd line)"

definition stream_total :: "bbv_line list \<Rightarrow> u64" where
  "stream_total ls = sum_list (map line_total ls)"

text \<open>The count a line credits to a block id; a block that is not listed is credited 0.\<close>

definition credited :: "bbv_line \<Rightarrow> u64 \<Rightarrow> u64" where
  "credited line b = (case map_of line b of Some c \<Rightarrow> c | None \<Rightarrow> 0)"

text \<open>The instructions held in the per-block interval counters.\<close>

definition counts_total :: "(u64 \<times> BBExecutionFrequency) list \<Rightarrow> u64" where
  "counts_total bs = sum_list (map (\<lambda>p. tb_dynamic_count (snd p)) bs)"

text \<open>The instructions executed by a run: each execution event contributes the
  \<open>n_insns\<close> of the block it executes.\<close>

fun executed_total :: "bbv_state \<Rightarrow> event list \<Rightarrow> u64" where
  "executed_total s [] = 0"
| "executed_total s (Translate tb # evs) =
     (case step s (Translate tb) of Inl f \<Rightarrow> 0 | Inr s' \<Rightarrow> executed_total s' evs)"
| "executed_total s (Execute h # evs) =
     (case step s (Execute h) of
        Inl f \<Rightarrow> 0
      | Inr s' \<Rightarrow> (case map_of (blocks s) h of Some info \<Rightarrow> n_insns info | None \<Rightarrow> 0)
                  + executed_total s' evs)"

text \<open>
  The same quantities as numbers. \<open>fprintf\<close> prints a count with \<open>%ld\<close>, that is as a
  signed 64-bit number; the instructions executed are counted in the naturals.
\<close>

definition printed_line_total :: "bbv_line \<Rightarrow> int" where
  "printed_line_total line = sum_list (map (\<lambda>p. sint (snd p)) line)"

definition printed_stream_total :: "bbv_line list \<Rightarrow> int" where
  "printed_stream_total ls = sum_list (map printed_line_total ls)"

fun executed_count :: "bbv_state \<Rightarrow> event list \<Rightarrow> nat" where
  "executed_count s [] = 0"
| "executed_count s (Translate tb # evs) =
     (case step s (Translate tb) of Inl f \<Rightarrow> 0 | Inr s' \<Rightarrow> executed_count s' evs)"
| "executed_count s (Execute h # evs) =
     (case step s (Execute h) of
        Inl f \<Rightarrow> 0
      | Inr s' \<Rightarrow> (case map_of (blocks s) h of Some info \<Rightarrow> unat (n_insns info) | None \<Rightarrow> 0)
                  + executed_count s' evs)"

definition counts_nat :: "(u64 \<times> BBExecutionFrequency) list \<Rightarrow> nat" where
  "counts_nat bs = sum_list (map (\<lambda>p. unat (tb_dynamic_count (snd p))) bs)"

definition counts_int :: "(u64 \<times> BBExecutionFrequency) list \<Rightarrow> int" where
  "counts_int bs = sum_list (map (\<lambda>p. sint (tb_dynamic_count (snd p))) bs)"

text \<open>The sum of \<open>exec_count * n_insns\<close> over all blocks of the hot-block table.\<close>

definition sum_dynamic :: "hot_blocks \<Rightarrow> u64" where
  "sum_dynamic bs = sum_list (map (\<lambda>p. exec_count (snd p) * TBExecCount.n_insns (snd p)) bs)"

definition key_insns :: "TBExecCount \<Rightarrow> u64" where
  "key_insns c = exec_count c * TBExecCount.n_insns c"

text \<open>The options \<open>qemu_plugin_install\<close> knows.\<close>

definition recognised_option :: "string \<Rightarrow> bool" where
  "recognised_option opt =
     (g_str_has_prefix opt ''bb-out-file='' \<or> g_str_has_prefix opt ''pc-out-file=''
      \<or> g_str_has_prefix opt ''interval-size='')"

subsection \<open>Concrete blocks and runs\<close>

definition nop_insn :: qemu_plugin_insn where
  "nop_insn = \<lparr> insn_size = 4, insn_data = [0x13, 0, 0, 0], insn_disas = ''nop'',
                insn_symbol = Some ''main'' \<rparr>"

definition mk_tb :: "u64 \<Rightarrow> nat \<Rightarrow> qemu_plugin_tb" where
  "mk_tb pc n = \<lparr> tb_vaddr = pc, tb_insns = replicate n nop_insn \<rparr>"

definition always_opens :: "string \<Rightarrow> bool" where
  "always_opens name = True"

text \<open>BBV output enabled, with the given interval length.\<close>

definition installed :: "string \<Rightarrow> bbv_state" where
  "installed interval =
     the (snd (qemu_plugin_install always_opens
                 [''bb-out-file=bbv.out'', ''interval-size='' @ interval]))"

text \<open>Interval 100, one block of 40 instructions at \<open>0x1000\<close>, executed three times:
  the globals after the third execution.\<close>

definition scenario_A_state :: bbv_state where
  "scenario_A_state =
     \<lparr> blocks = [(0x1000, \<lparr> tbid = 0, tb_pc = 0x1000, n_insns = 40, tb_dynamic_count = 20,
                           symbol = Some ''main'', offset_from_symbol = 0 \<rparr>)],
       insns_interval_length = 100, bb_out = Some [[(0, 100)]], pc_out = None,
       insns_executed = 20, next_tbid = 1 \<rparr>"

text \<open>Hot-block tables: two blocks of 10 and 20 instructions executed 5 times and once;
  three blocks of one instruction, translated at \<open>0x3000\<close>, \<open>0x2000\<close>, \<open>0x1000\<close> in this
  order and never executed.\<close>

definition scenario_B_blocks :: hot_blocks where
  "scenario_B_blocks =
     projr (hot_run [] [Translate (mk_tb 0x1000 10), Translate (mk_tb 0x2000 20),
                        Execute 0x1000, Execute 0x1000, Execute 0x1000, Execute 0x1000,
                        Execute 0x1000, Execute 0x2000])"

definition idle_blocks :: hot_blocks where
  "idle_blocks =
     projr (hot_run [] [Translate (mk_tb 0x3000 1), Translate (mk_tb 0x2000 1),
                        Translate (mk_tb 0x1000 1)])"

subsection \<open>Invariants of the BBV table\<close>

text \<open>Block identifiers are handed out in insertion order, starting at 0.\<close>

definition ids_dense :: "(u64 \<times> BBExecutionFrequency) list \<Rightarrow> bool" where
  "ids_dense bs = (map (\<lambda>p. tbid (snd p)) bs = map word_of_nat [0..<length bs])"

definition bbv_inv :: "bbv_state \<Rightarrow> bool" where
  "bbv_inv s = (distinct (map fst (blocks s)) \<and> ids_dense (blocks s)
                \<and> next_tbid s = word_of_nat (length (blocks s)))"

text \<open>States of the scenarios above: interval 100 with the 40-instruction block executed
  twice; interval 100 with a 50-instruction block executed once; interval 10 with a
  100-instruction block translated.\<close>

definition scenario_A_before_third :: bbv_state where
  "scenario_A_before_third =
     \<lparr> blocks = [(0x1000, \<lparr> tbid = 0, tb_pc = 0x1000, n_insns = 40, tb_dynamic_count = 80,
                           symbol = Some ''main'', offset_from_symbol = 0 \<rparr>)],
       insns_interval_length = 100, bb_out = Some [], pc_out = None,
       insns_executed = 80, next_tbid = 1 \<rparr>"

definition half_way_state :: bbv_state where
  "half_way_state =
     \<lparr> blocks = [(0x1000, \<lparr> tbid = 0, tb_pc = 0x1000, n_insns = 50, tb_dynamic_count = 50,
                           symbol = Some ''main'', offset_from_symbol = 0 \<rparr>)],
       insns_interval_length = 100, bb_out = Some [], pc_out = None,
       insns_executed = 50, next_tbid = 1 \<rparr>"

definition long_block_state :: bbv_state where
  "long_block_state =
     \<lparr> blocks = [(0x1000, \<lparr> tbid = 0, tb_pc = 0x1000, n_insns = 100, tb_dynamic_count = 0,
                           symbol = Some ''main'', offset_from_symbol = 0 \<rparr>)],
       insns_interval_length = 10, bb_out = Some [], pc_out = None,
       insns_executed = 0, next_tbid = 1 \<rparr>"

subsection \<open>Comparison functions\<close>

text \<open>A comparison that answers "first" exactly when the first key is strictly larger.\<close>

definition by_key_desc :: "('a \<Rightarrow> u64) \<Rightarrow> ('a \<Rightarrow> 'a \<Rightarrow> int) \<Rightarrow> bool" where
  "by_key_desc key c = (\<forall>a b. (c a b \<le> 0) = (key b < key a))"

declare g_list_sort.simps [simp del]

text \<open>
  The record of a one-instruction block that has been translated once and never executed,
  and the table that yields such blocks in a given order.
\<close>

definition idle_block :: "u64 \<Rightarrow> TBExecCount" where
  "idle_block a =
     \<lparr> start_addr = a, exec_count = 0, trans_count = 1, n_insns = 1,
       insns = [snapshot_insn nop_insn], symbol = Some ''main'' \<rparr>"

definition idle_table :: "u64 list \<Rightarrow> hot_blocks" where
  "idle_table as = map (\<lambda>a. (a, idle_block a)) as"

section \<open>Properties\<close>

subsection \<open>Evaluation on concrete runs\<close>

lemmas install_eval = qemu_plugin_install_def g_str_has_prefix_def bbv_globals_def
  g_ascii_strtoull_def g_ascii_isspace_def g_ascii_isdigit_def installed_def always_opens_def

lemmas bbv_eval = vcpu_tb_exec_def vcpu_tb_trans_bbv_def handle_interval_expiry_def
  print_bb_freq_def qemu_plugin_tb_vaddr_def qemu_plugin_tb_n_insns_def
  qemu_plugin_tb_get_insn_def mk_tb_def nop_insn_def plugin_exit_bbv_def
  g_hash_table_get_values_def g_list_sort.simps

lemmas hot_eval = vcpu_tb_trans_hot_def tb_exec_inline_def qemu_plugin_tb_vaddr_def
  qemu_plugin_tb_n_insns_def qemu_plugin_tb_get_insn_def mk_tb_def nop_insn_def
  snapshot_insn_def

lemmas exit_eval = plugin_exit_hot_def g_hash_table_get_values_def cmp_dynamic_insncount_def
  cmp_dynamic_execcount_def g_list_sort.simps

lemma installed_100:
  "installed ''100'' =
     \<lparr> blocks = [], insns_interval_length = 100, bb_out = Some [], pc_out = None,
       insns_executed = 0, next_tbid = 0 \<rparr>"
  by (simp add: install_eval)

lemma installed_10:
  "installed ''10'' =
     \<lparr> blocks = [], insns_interval_length = 10, bb_out = Some [], pc_out = None,
       insns_executed = 0, next_tbid = 0 \<rparr>"
  by (simp add: install_eval)

lemma install_100:
  "qemu_plugin_install always_opens [''bb-out-file=bbv.out'', ''interval-size=100'']
     = (0, Some (installed ''100''))"
  by (simp add: install_eval)

lemma run_scenario_A:
  "run (installed ''100'')
       [Translate (mk_tb 0x1000 40), Execute 0x1000, Execute 0x1000, Execute 0x1000]
     = Inr scenario_A_state"
  by (simp add: installed_100 bbv_eval scenario_A_state_def)

lemma install_10:
  "qemu_plugin_install always_opens [''bb-out-file=bbv.out'', ''interval-size=10'']
     = (0, Some (installed ''10''))"
  by (simp add: install_eval)

lemma run_scenario_A_before_third:
  "run (installed ''100'') [Translate (mk_tb 0x1000 40), Execute 0x1000, Execute 0x1000]
     = Inr scenario_A_before_third"
  by (simp add: installed_100 bbv_eval scenario_A_before_third_def)

lemma run_half_way:
  "run (installed ''100'') [Translate (mk_tb 0x1000 50), Execute 0x1000] = Inr half_way_state"
  by (simp add: installed_100 bbv_eval half_way_state_def)

lemma run_long_block:
  "run (installed ''10'') [Translate (mk_tb 0x1000 100)] = Inr long_block_state"
  by (simp add: installed_10 bbv_eval long_block_state_def)

subsection \<open>The block table under updates and traversals\<close>


lemma map_fst_update_block: "map fst (update_block k f bs) = map fst bs"
  by (induction bs) auto

lemma length_update_block: "length (update_block k f bs) = length bs"
  by (induction bs) auto

lemma map_of_update_block:
  "map_of (update_block k f bs) k' = (if k' = k then map_option f (map_of bs k) else map_of bs k')"
  by (induction bs) auto

lemma update_block_absent: "map_of bs k = None \<Longrightarrow> update_block k f bs = bs"
  by (induction bs) (auto split: if_splits)

lemma update_block_twice: "update_block k f (update_block k g bs) = update_block k (\<lambda>r. f (g r)) bs"
  by (induction bs) auto

lemma map_tbid_update_block:
  "(\<And>r. tbid (f r) = tbid r) \<Longrightarrow> map (\<lambda>p. tbid (snd p)) (update_block k f bs) = map (\<lambda>p. tbid (snd p)) bs"
  by (induction bs) auto

lemma counts_total_update_block:
  "distinct (map fst bs) \<Longrightarrow> map_of bs k = Some info \<Longrightarrow>
   counts_total (update_block k f bs) = counts_total bs - tb_dynamic_count info + tb_dynamic_count (f info)"
proof (induction bs)
  case Nil
  then show ?case by simp
next
  case (Cons p bs)
  obtain a r where p: "p = (a, r)" by (cases p)
  show ?case
  proof (cases "a = k")
    case True
    with Cons.prems p have "map_of bs k = None" "r = info"
      by (auto simp: map_of_eq_None_iff)
    then show ?thesis using True p
      by (simp add: counts_total_def update_block_absent)
  next
    case False
    with Cons p show ?thesis by (simp add: counts_total_def)
  qed
qed

lemma snd_foreach:
  "snd (foreach_print_bb_freq bs) = map (\<lambda>(k, i). (k, i\<lparr>tb_dynamic_count := 0\<rparr>)) bs"
  by (induction bs) (auto simp: print_bb_freq_def split: prod.splits)

lemma fst_foreach:
  "fst (foreach_print_bb_freq bs) =
     map (\<lambda>p. (tbid (snd p), tb_dynamic_count (snd p))) (filter (\<lambda>p. tb_dynamic_count (snd p) \<noteq> 0) bs)"
  by (induction bs) (auto simp: print_bb_freq_def split: prod.splits)

lemma line_total_foreach: "line_total (fst (foreach_print_bb_freq bs)) = counts_total bs"
  by (induction bs) (auto simp: fst_foreach line_total_def counts_total_def)

lemma counts_total_reset: "counts_total (snd (foreach_print_bb_freq bs)) = 0"
  by (induction bs) (auto simp: snd_foreach counts_total_def)

lemma exec_unknown: "map_of (blocks s) h = None \<Longrightarrow> vcpu_tb_exec s h = Inl UnknownBlock"
  by (simp add: vcpu_tb_exec_def)

lemma exec_stay:
  assumes "map_of (blocks s) h = Some info"
    and "\<not> insns_interval_length s < insns_executed s + n_insns info"
  shows "vcpu_tb_exec s h =
     Inr (s\<lparr>insns_executed := insns_executed s + n_insns info,
            blocks := update_block h (\<lambda>i. i\<lparr>tb_dynamic_count := tb_dynamic_count i + n_insns i\<rparr>)
                        (blocks s)\<rparr>)"
  using assms by (simp add: vcpu_tb_exec_def Let_def)

lemma exec_cross_silent:
  assumes "map_of (blocks s) h = Some info"
    and "insns_interval_length s < insns_executed s + n_insns info"
    and "bb_out s = None"
  shows "vcpu_tb_exec s h =
     Inr (s\<lparr>insns_executed := insns_executed s + n_insns info - insns_interval_length s,
            blocks := update_block h
               (\<lambda>i. i\<lparr>tb_dynamic_count := insns_executed s + n_insns info - insns_interval_length s\<rparr>)
               (blocks s)\<rparr>)"
  using assms by (simp add: vcpu_tb_exec_def Let_def handle_interval_expiry_def update_block_twice)

lemma exec_cross:
  assumes "map_of (blocks s) h = Some info"
    and "insns_interval_length s < insns_executed s + n_insns info"
    and "bb_out s = Some w"
  shows "vcpu_tb_exec s h =
     Inr (s\<lparr>insns_executed := insns_executed s + n_insns info - insns_interval_length s,
            bb_out := Some (w @ [fst (foreach_print_bb_freq (update_block h
               (\<lambda>i. i\<lparr>tb_dynamic_count := tb_dynamic_count i + n_insns i
                      - (insns_executed s + n_insns info - insns_interval_length s)\<rparr>) (blocks s)))]),
            blocks := update_block h
               (\<lambda>i. i\<lparr>tb_dynamic_count := insns_executed s + n_insns info - insns_interval_length s\<rparr>)
               (snd (foreach_print_bb_freq (update_block h
               (\<lambda>i. i\<lparr>tb_dynamic_count := tb_dynamic_count i + n_insns i
                      - (insns_executed s + n_insns info - insns_interval_length s)\<rparr>) (blocks s))))\<rparr>)"
  using assms
  by (simp add: vcpu_tb_exec_def Let_def handle_interval_expiry_def update_block_twice split: prod.splits)


lemma map_fst_reset: "map fst (snd (foreach_print_bb_freq bs)) = map fst bs"
  by (induction bs) (auto simp: snd_foreach)

lemma map_tbid_reset:
  "map (\<lambda>p. tbid (snd p)) (snd (foreach_print_bb_freq bs)) = map (\<lambda>p. tbid (snd p)) bs"
  by (induction bs) (auto simp: snd_foreach)

lemma length_reset: "length (snd (foreach_print_bb_freq bs)) = length bs"
  by (simp add: snd_foreach)

lemma map_of_reset:
  "map_of (snd (foreach_print_bb_freq bs)) k = map_option (\<lambda>i. i\<lparr>tb_dynamic_count := 0\<rparr>) (map_of bs k)"
  by (simp add: snd_foreach map_of_map)

lemma distinct_keys_bound:
  fixes ks :: "u64 list"
  assumes "distinct ks"
  shows "length ks \<le> 2 ^ 64"
proof -
  have "length ks = card (set ks)" using assms by (simp add: distinct_card)
  also have "\<dots> \<le> card (UNIV :: u64 set)" by (rule card_mono) simp_all
  also have "\<dots> = 2 ^ 64" by (simp add: card_word)
  finally show ?thesis .
qed

lemma ids_dense_distinct:
  assumes "distinct (map fst bs)" and "ids_dense bs"
  shows "distinct (map (\<lambda>p. tbid (snd p)) bs)"
proof -
  have len: "length bs \<le> 2 ^ 64" using distinct_keys_bound [OF assms(1)] by simp
  have "inj_on (word_of_nat :: nat \<Rightarrow> u64) (set [0..<length bs])"
  proof (rule inj_onI)
    fix x y assume "x \<in> set [0..<length bs]" "y \<in> set [0..<length bs]"
      and eq: "(word_of_nat x :: u64) = word_of_nat y"
    then have "x < 2 ^ 64" "y < 2 ^ 64" using len by auto
    with eq show "x = y" by (simp add: word_of_nat_eq_iff take_bit_nat_eq_self)
  qed
  then have "distinct (map (word_of_nat :: nat \<Rightarrow> u64) [0..<length bs])"
    by (simp add: distinct_map)
  with assms(2) show ?thesis by (simp add: ids_dense_def)
qed

lemma trans_known:
  "map_of (blocks s) (tb_vaddr tb) = Some info \<Longrightarrow> vcpu_tb_trans_bbv s tb = Inr (s, tb_vaddr tb)"
  by (simp add: vcpu_tb_trans_bbv_def qemu_plugin_tb_vaddr_def Let_def)

lemma trans_new:
  assumes "map_of (blocks s) (tb_vaddr tb) = None" and "tb_insns tb = insn0 # rest"
  shows "vcpu_tb_trans_bbv s tb =
     Inr (s\<lparr>blocks := blocks s @
               [(tb_vaddr tb, \<lparr> tbid = next_tbid s, tb_pc = tb_vaddr tb,
                   n_insns = word_of_nat (length (tb_insns tb)), tb_dynamic_count = 0,
                   symbol = insn_symbol insn0, offset_from_symbol = 0 \<rparr>)],
            next_tbid := next_tbid s + 1\<rparr>, tb_vaddr tb)"
  using assms
  by (simp add: vcpu_tb_trans_bbv_def qemu_plugin_tb_vaddr_def qemu_plugin_tb_get_insn_def
      qemu_plugin_tb_n_insns_def Let_def)

lemma trans_empty:
  assumes "map_of (blocks s) (tb_vaddr tb) = None" and "tb_insns tb = []"
  shows "vcpu_tb_trans_bbv s tb = Inl NullDeref"
  using assms
  by (simp add: vcpu_tb_trans_bbv_def qemu_plugin_tb_vaddr_def qemu_plugin_tb_get_insn_def Let_def)

lemma trans_inv:
  assumes tr: "vcpu_tb_trans_bbv s tb = Inr (s1, h)" and inv: "bbv_inv s"
  shows "bbv_inv s1 \<and> bb_out s1 = bb_out s \<and> insns_executed s1 = insns_executed s
         \<and> counts_total (blocks s1) = counts_total (blocks s)
         \<and> insns_interval_length s1 = insns_interval_length s"
proof (cases "map_of (blocks s) (tb_vaddr tb)")
  case (Some info)
  with tr inv show ?thesis by (simp add: trans_known)
next
  case None
  then have fresh: "tb_vaddr tb \<notin> set (map fst (blocks s))"
    by (simp add: map_of_eq_None_iff)
  show ?thesis
  proof (cases "tb_insns tb")
    case Nil
    with None tr show ?thesis by (simp add: trans_empty)
  next
    case (Cons insn0 rest)
    from tr have s1: "s1 = s\<lparr>blocks := blocks s @
               [(tb_vaddr tb, \<lparr> tbid = next_tbid s, tb_pc = tb_vaddr tb,
                   n_insns = word_of_nat (length (tb_insns tb)), tb_dynamic_count = 0,
                   symbol = insn_symbol insn0, offset_from_symbol = 0 \<rparr>)],
            next_tbid := next_tbid s + 1\<rparr>"
      unfolding trans_new [OF None Cons] by auto
    have "bbv_inv s1"
      using inv fresh unfolding bbv_inv_def ids_dense_def s1 by simp
    then show ?thesis by (simp add: s1 counts_total_def)
  qed
qed


lemma exec_inv:
  assumes ex: "vcpu_tb_exec s h = Inr s1" and inv: "bbv_inv s"
  shows "bbv_inv s1 \<and> insns_interval_length s1 = insns_interval_length s
         \<and> map fst (blocks s1) = map fst (blocks s)"
proof (cases "map_of (blocks s) h")
  case None
  with ex show ?thesis by (simp add: exec_unknown)
next
  case (Some info)
  show ?thesis
  proof (cases "insns_interval_length s < insns_executed s + n_insns info")
    case False
    from ex have "s1 = s\<lparr>insns_executed := insns_executed s + n_insns info,
            blocks := update_block h (\<lambda>i. i\<lparr>tb_dynamic_count := tb_dynamic_count i + n_insns i\<rparr>)
                        (blocks s)\<rparr>"
      by (simp add: exec_stay [OF Some False])
    with inv show ?thesis
      by (simp add: bbv_inv_def ids_dense_def map_fst_update_block map_tbid_update_block
          length_update_block)
  next
    case True
    show ?thesis
    proof (cases "bb_out s")
      case None
      from ex have "s1 = s\<lparr>insns_executed := insns_executed s + n_insns info - insns_interval_length s,
            blocks := update_block h
               (\<lambda>i. i\<lparr>tb_dynamic_count := insns_executed s + n_insns info - insns_interval_length s\<rparr>)
               (blocks s)\<rparr>"
        by (simp add: exec_cross_silent [OF Some True None])
      with inv show ?thesis
        by (simp add: bbv_inv_def ids_dense_def map_fst_update_block map_tbid_update_block
            length_update_block)
    next
      case (Some w)
      note ec = exec_cross [OF \<open>map_of (blocks s) h = Some info\<close> True Some]
      from ex ec have b: "blocks s1 = update_block h
               (\<lambda>i. i\<lparr>tb_dynamic_count := insns_executed s + n_insns info - insns_interval_length s\<rparr>)
               (snd (foreach_print_bb_freq (update_block h
               (\<lambda>i. i\<lparr>tb_dynamic_count := tb_dynamic_count i + n_insns i
                      - (insns_executed s + n_insns info - insns_interval_length s)\<rparr>) (blocks s))))"
        and r: "next_tbid s1 = next_tbid s" "insns_interval_length s1 = insns_interval_length s"
        by auto
      from inv show ?thesis
        unfolding bbv_inv_def ids_dense_def b r
        by (simp add: map_fst_update_block map_tbid_update_block length_update_block
            map_fst_reset map_tbid_reset length_reset)
    qed
  qed
qed

lemma stream_total_snoc: "stream_total (w @ [line]) = stream_total w + line_total line"
  by (simp add: stream_total_def)

lemma exec_accounting:
  assumes ex: "vcpu_tb_exec s h = Inr s1" and inv: "bbv_inv s"
    and acc: "counts_total (blocks s) = insns_executed s"
    and out: "bb_out s = Some w" and info: "map_of (blocks s) h = Some info"
  shows "counts_total (blocks s1) = insns_executed s1
         \<and> (\<exists>w1. bb_out s1 = Some w1
               \<and> stream_total w1 + insns_executed s1
                   = stream_total w + insns_executed s + n_insns info)"
proof -
  from inv have dist: "distinct (map fst (blocks s))" by (simp add: bbv_inv_def)
  show ?thesis
  proof (cases "insns_interval_length s < insns_executed s + n_insns info")
    case False
    from ex have s1: "s1 = s\<lparr>insns_executed := insns_executed s + n_insns info,
            blocks := update_block h (\<lambda>i. i\<lparr>tb_dynamic_count := tb_dynamic_count i + n_insns i\<rparr>)
                        (blocks s)\<rparr>"
      by (simp add: exec_stay [OF info False])
    show ?thesis
      using acc out by (simp add: s1 counts_total_update_block [OF dist info])
  next
    case True
    define R where "R = insns_executed s + n_insns info - insns_interval_length s"
    define B1 where "B1 = update_block h
               (\<lambda>i. i\<lparr>tb_dynamic_count := tb_dynamic_count i + n_insns i - R\<rparr>) (blocks s)"
    from ex have s1: "s1 = s\<lparr>insns_executed := R,
            bb_out := Some (w @ [fst (foreach_print_bb_freq B1)]),
            blocks := update_block h (\<lambda>i. i\<lparr>tb_dynamic_count := R\<rparr>)
               (snd (foreach_print_bb_freq B1))\<rparr>"
      by (simp add: exec_cross [OF info True out] R_def B1_def)
    have B1_total: "counts_total B1 = insns_interval_length s"
      using acc by (simp add: B1_def counts_total_update_block [OF dist info] R_def)
    have d2: "distinct (map fst (snd (foreach_print_bb_freq B1)))"
      using dist by (simp add: map_fst_reset B1_def map_fst_update_block)
    have m2: "map_of (snd (foreach_print_bb_freq B1)) h
                = Some (info\<lparr>tb_dynamic_count := 0\<rparr>)"
      using info by (simp add: map_of_reset B1_def map_of_update_block)
    have c1: "counts_total (blocks s1) = R"
      by (simp add: s1 counts_total_update_block [OF d2 m2] counts_total_reset)
    have "stream_total (w @ [fst (foreach_print_bb_freq B1)]) + R
            = stream_total w + insns_executed s + n_insns info"
      by (simp add: stream_total_snoc line_total_foreach B1_total R_def)
    then show ?thesis using c1 by (simp add: s1)
  qed
qed


lemma run_accounting:
  assumes "run s evs = Inr s'" and "bbv_inv s"
    and "counts_total (blocks s) = insns_executed s" and "bb_out s = Some w"
  shows "bbv_inv s' \<and> counts_total (blocks s') = insns_executed s'
         \<and> insns_interval_length s' = insns_interval_length s
         \<and> (\<exists>w'. bb_out s' = Some w'
               \<and> stream_total w' + insns_executed s'
                   = stream_total w + insns_executed s + executed_total s evs)"
  using assms
proof (induction evs arbitrary: s w)
  case Nil
  then show ?case by simp
next
  case (Cons ev evs)
  show ?case
  proof (cases ev)
    case (Translate tb)
    from Cons.prems(1) Translate obtain s1 h where
      tr: "vcpu_tb_trans_bbv s tb = Inr (s1, h)" and rest: "run s1 evs = Inr s'"
      by (auto split: sum.splits)
    note t = trans_inv [OF tr Cons.prems(2)]
    from t Cons.prems have p: "bbv_inv s1" "counts_total (blocks s1) = insns_executed s1"
      "bb_out s1 = Some w" by simp_all
    from Cons.IH [OF rest p] t tr Translate show ?thesis by simp
  next
    case (Execute h)
    from Cons.prems(1) Execute obtain s1 where
      ex: "vcpu_tb_exec s h = Inr s1" and rest: "run s1 evs = Inr s'"
      by (auto split: sum.splits)
    from ex obtain info where info: "map_of (blocks s) h = Some info"
      by (cases "map_of (blocks s) h") (simp_all add: exec_unknown)
    note e1 = exec_inv [OF ex Cons.prems(2)]
    note e2 = exec_accounting [OF ex Cons.prems(2) Cons.prems(3) Cons.prems(4) info]
    from e2 obtain w1 where w1: "bb_out s1 = Some w1"
      and eq1: "stream_total w1 + insns_executed s1
                  = stream_total w + insns_executed s + n_insns info" by blast
    from e1 e2 have p: "bbv_inv s1" "counts_total (blocks s1) = insns_executed s1" by simp_all
    from Cons.IH [OF rest p w1] obtain w' where w': "bb_out s' = Some w'"
      and eq2: "stream_total w' + insns_executed s'
                  = stream_total w1 + insns_executed s1 + executed_total s1 evs"
      and others: "bbv_inv s'" "counts_total (blocks s') = insns_executed s'"
        "insns_interval_length s' = insns_interval_length s1" by blast
    have "executed_total s (ev # evs) = n_insns info + executed_total s1 evs"
      using Execute ex info by simp
    with eq1 eq2 have "stream_total w' + insns_executed s'
                  = stream_total w + insns_executed s + executed_total s (ev # evs)"
      by (simp add: algebra_simps)
    with w' others e1 show ?thesis by simp
  qed
qed

lemma install_initial:
  assumes "qemu_plugin_install fopen_w argv = (r, Some s0)"
  shows "r = 0 \<and> blocks s0 = [] \<and> insns_executed s0 = 0 \<and> next_tbid s0 = 0
         \<and> (bb_out s0 = None \<or> bb_out s0 = Some [])"
  using assms
  by (auto simp: qemu_plugin_install_def bbv_globals_def split: option.splits prod.splits if_splits)

lemma installed_inv:
  assumes "qemu_plugin_install fopen_w argv = (r, Some s0)" and "bb_out s0 \<noteq> None"
  shows "bbv_inv s0 \<and> counts_total (blocks s0) = insns_executed s0 \<and> bb_out s0 = Some []
         \<and> insns_executed s0 = 0"
  using install_initial [OF assms(1)] assms(2)
  by (auto simp: bbv_inv_def ids_dense_def counts_total_def)

lemma reachable_accounting:
  assumes "qemu_plugin_install fopen_w argv = (r, Some s0)" and "bb_out s0 \<noteq> None"
    and "run s0 evs = Inr s"
  shows "bbv_inv s \<and> counts_total (blocks s) = insns_executed s
         \<and> (\<exists>w. bb_out s = Some w
               \<and> stream_total w + insns_executed s = executed_total s0 evs)"
proof -
  note i = installed_inv [OF assms(1,2)]
  from i have a: "bbv_inv s0" "counts_total (blocks s0) = insns_executed s0" "bb_out s0 = Some []"
    by simp_all
  from run_accounting [OF assms(3) a] i show ?thesis
    by (auto simp: stream_total_def)
qed

lemma exit_bb_out: "bb_out (snd (plugin_exit_bbv s)) = bb_out (handle_interval_expiry s)"
  by (simp add: plugin_exit_bbv_def Let_def split: option.splits sum.splits)

lemma flush_line:
  "bb_out s = Some w \<Longrightarrow>
   bb_out (handle_interval_expiry s) = Some (w @ [fst (foreach_print_bb_freq (blocks s))])"
  by (simp add: handle_interval_expiry_def split: prod.splits)

lemma total_at_exit:
  assumes "qemu_plugin_install fopen_w argv = (0, Some s0)" and "bb_out s0 \<noteq> None"
    and "run s0 evs = Inr s"
  shows "\<exists>w. bb_out (snd (plugin_exit_bbv s)) = Some w \<and> stream_total w = executed_total s0 evs"
proof -
  from reachable_accounting [OF assms] obtain w where
    acc: "counts_total (blocks s) = insns_executed s" and w: "bb_out s = Some w"
    and eq: "stream_total w + insns_executed s = executed_total s0 evs" by blast
  have "bb_out (snd (plugin_exit_bbv s)) = Some (w @ [fst (foreach_print_bb_freq (blocks s))])"
    by (simp add: exit_bb_out flush_line [OF w])
  moreover have "stream_total (w @ [fst (foreach_print_bb_freq (blocks s))])
                   = executed_total s0 evs"
    using eq acc by (simp add: stream_total_snoc line_total_foreach)
  ultimately show ?thesis by blast
qed

subsection \<open>The stream as printed\<close>

lemma sint_of_int_small:
  assumes "- (2 ^ 63) \<le> k" and "k < 2 ^ 63"
  shows "sint (word_of_int k :: u64) = k"
proof -
  have "sint (word_of_int k :: u64) = signed_take_bit (LENGTH(64) - 1) k"
    by (rule sint_sbintrunc')
  also have "\<dots> = signed_take_bit 63 k" by simp
  also have "\<dots> = k" using assms by (rule signed_take_bit_int_eq_self)
  finally show ?thesis .
qed

lemma uint_below:
  fixes c :: u64
  assumes "unat c < 2 ^ 63"
  shows "uint c < 2 ^ 63"
proof -
  have "int (unat c) < int (2 ^ 63)" using assms by linarith
  then show ?thesis by simp
qed

lemma sint_count:
  fixes c n R :: u64
  assumes "unat c + unat n < 2 ^ 63" and "unat R < 2 ^ 63"
  shows "sint (c + n - R) = int (unat c) + int (unat n) - int (unat R)"
proof -
  have eq: "c + n - R = word_of_int (uint c + uint n - uint R)"
    by (simp only: of_int_add of_int_diff word_of_int_uint)
  have "int (unat c + unat n) < int (2 ^ 63)" using assms(1) by linarith
  then have cn: "uint c + uint n < 2 ^ 63" by simp
  have r: "uint R < 2 ^ 63" by (rule uint_below [OF assms(2)])
  have nonneg: "0 \<le> uint c" "0 \<le> uint n" "0 \<le> uint R" by simp_all
  have lo: "- (2 ^ 63) \<le> uint c + uint n - uint R" using r nonneg by linarith
  have hi: "uint c + uint n - uint R < 2 ^ 63" using cn nonneg by linarith
  have "sint (c + n - R) = uint c + uint n - uint R"
    unfolding eq by (rule sint_of_int_small [OF lo hi])
  then show ?thesis by simp
qed

lemma sint_small:
  fixes c :: u64
  assumes "unat c < 2 ^ 63"
  shows "sint c = int (unat c)"
  using sint_count [of c 0 0] assms by simp

lemma counts_int_nat: "counts_nat bs < 2 ^ 63 \<Longrightarrow> counts_int bs = int (counts_nat bs)"
proof (induction bs)
  case Nil
  then show ?case by (simp add: counts_int_def counts_nat_def)
next
  case (Cons p bs)
  from Cons.prems have small: "unat (tb_dynamic_count (snd p)) < 2 ^ 63"
    and rest: "counts_nat bs < 2 ^ 63"
    by (simp_all add: counts_nat_def)
  have "counts_int (p # bs) = sint (tb_dynamic_count (snd p)) + counts_int bs"
    by (simp add: counts_int_def)
  also have "\<dots> = int (unat (tb_dynamic_count (snd p))) + int (counts_nat bs)"
    by (simp only: sint_small [OF small] Cons.IH [OF rest])
  also have "\<dots> = int (counts_nat (p # bs))"
    by (simp add: counts_nat_def)
  finally show ?case .
qed

lemma printed_line_total_foreach:
  "printed_line_total (fst (foreach_print_bb_freq bs)) = counts_int bs"
  by (induction bs) (auto simp: fst_foreach printed_line_total_def counts_int_def)

lemma counts_nat_reset: "counts_nat (snd (foreach_print_bb_freq bs)) = 0"
  by (induction bs) (auto simp: snd_foreach counts_nat_def)

lemma counts_nat_update_block:
  "distinct (map fst bs) \<Longrightarrow> map_of bs k = Some info \<Longrightarrow>
   counts_nat (update_block k f bs) + unat (tb_dynamic_count info)
     = counts_nat bs + unat (tb_dynamic_count (f info))"
proof (induction bs)
  case Nil
  then show ?case by simp
next
  case (Cons p bs)
  obtain a r where p: "p = (a, r)" by (cases p)
  show ?case
  proof (cases "a = k")
    case True
    with Cons.prems p have "map_of bs k = None" "r = info"
      by (auto simp: map_of_eq_None_iff)
    then show ?thesis using True p
      by (simp add: counts_nat_def update_block_absent)
  next
    case False
    with Cons p show ?thesis by (simp add: counts_nat_def)
  qed
qed

lemma counts_int_update_block:
  "distinct (map fst bs) \<Longrightarrow> map_of bs k = Some info \<Longrightarrow>
   counts_int (update_block k f bs)
     = counts_int bs - sint (tb_dynamic_count info) + sint (tb_dynamic_count (f info))"
proof (induction bs)
  case Nil
  then show ?case by simp
next
  case (Cons p bs)
  obtain a r where p: "p = (a, r)" by (cases p)
  show ?case
  proof (cases "a = k")
    case True
    with Cons.prems p have "map_of bs k = None" "r = info"
      by (auto simp: map_of_eq_None_iff)
    then show ?thesis using True p
      by (simp add: counts_int_def update_block_absent)
  next
    case False
    with Cons p show ?thesis by (simp add: counts_int_def)
  qed
qed

lemma count_le_counts_nat:
  "map_of bs k = Some info \<Longrightarrow> unat (tb_dynamic_count info) \<le> counts_nat bs"
  by (induction bs) (auto simp: counts_nat_def split: if_splits)

lemma printed_stream_total_snoc:
  "printed_stream_total (w @ [line]) = printed_stream_total w + printed_line_total line"
  by (simp add: printed_stream_total_def)

lemma trans_counts_nat:
  assumes tr: "vcpu_tb_trans_bbv s tb = Inr (s1, h)"
  shows "counts_nat (blocks s1) = counts_nat (blocks s)"
proof (cases "map_of (blocks s) (tb_vaddr tb)")
  case (Some info)
  with tr show ?thesis by (simp add: trans_known)
next
  case None
  show ?thesis
  proof (cases "tb_insns tb")
    case Nil
    with None tr show ?thesis by (simp add: trans_empty)
  next
    case (Cons insn0 rest)
    from tr show ?thesis
      unfolding trans_new [OF None Cons] by (auto simp: counts_nat_def)
  qed
qed

lemma exec_count_step:
  assumes ex: "vcpu_tb_exec s h = Inr s1" and dist: "distinct (map fst (blocks s))"
    and out: "bb_out s = Some w" and info: "map_of (blocks s) h = Some info"
    and k1: "counts_nat (blocks s) = unat (insns_executed s)"
    and k2: "unat (insns_executed s) \<le> E"
    and small: "E + unat (n_insns info) < 2 ^ 63"
  shows "counts_nat (blocks s1) = unat (insns_executed s1)
         \<and> unat (insns_executed s1) \<le> E + unat (n_insns info)
         \<and> (\<exists>w1. bb_out s1 = Some w1
               \<and> printed_stream_total w1 + int (unat (insns_executed s1))
                   = printed_stream_total w + int (unat (insns_executed s))
                     + int (unat (n_insns info)))"
proof -
  define T where "T = insns_executed s"
  define n where "n = n_insns info"
  define c where "c = tb_dynamic_count info"
  define L where "L = insns_interval_length s"
  have k1': "counts_nat (blocks s) = unat T" using k1 by (simp add: T_def)
  have k2': "unat T \<le> E" using k2 by (simp add: T_def)
  have small': "E + unat n < 2 ^ 63" using small by (simp add: n_def)
  have c_le: "unat c \<le> unat T"
    using count_le_counts_nat [OF info] k1' by (simp add: c_def)
  have Tn63: "unat T + unat n < 2 ^ 63" using k2' small' by simp
  have cn63: "unat c + unat n < 2 ^ 63" using c_le Tn63 by simp
  have "(2::nat) ^ 63 \<le> 2 ^ 64" by simp
  with Tn63 cn63 have "unat T + unat n < 2 ^ LENGTH(64)" "unat c + unat n < 2 ^ LENGTH(64)"
    by simp_all
  then have uTn: "unat (T + n) = unat T + unat n" and ucn: "unat (c + n) = unat c + unat n"
    by (simp_all only: unat_add_lem [THEN iffD1])
  show ?thesis
  proof (cases "L < T + n")
    case False
    then have stay: "\<not> insns_interval_length s < insns_executed s + n_insns info"
      by (simp add: L_def T_def n_def)
    from ex have s1: "s1 = s\<lparr>insns_executed := T + n,
            blocks := update_block h (\<lambda>i. i\<lparr>tb_dynamic_count := tb_dynamic_count i + n_insns i\<rparr>)
                        (blocks s)\<rparr>"
      by (simp add: exec_stay [OF info stay] T_def n_def)
    have "counts_nat (blocks s1) + unat c = counts_nat (blocks s) + unat (c + n)"
      using counts_nat_update_block [OF dist info,
              of "\<lambda>i. i\<lparr>tb_dynamic_count := tb_dynamic_count i + n_insns i\<rparr>"]
      by (simp add: s1 c_def n_def)
    then have a: "counts_nat (blocks s1) = unat (T + n)"
      using k1' by (simp add: ucn uTn)
    have b: "insns_executed s1 = T + n" "bb_out s1 = Some w" using out by (simp_all add: s1)
    have "unat (T + n) \<le> E + unat n" using k2' by (simp add: uTn)
    moreover have "printed_stream_total w + int (unat (T + n))
                     = printed_stream_total w + int (unat T) + int (unat n)"
      by (simp only: uTn of_nat_add add.assoc)
    ultimately show ?thesis using a b unfolding T_def n_def by simp
  next
    case True
    then have over: "insns_interval_length s < insns_executed s + n_insns info"
      by (simp add: L_def T_def n_def)
    define R where "R = T + n - L"
    define B1 where "B1 = update_block h
               (\<lambda>i. i\<lparr>tb_dynamic_count := tb_dynamic_count i + n_insns i - R\<rparr>) (blocks s)"
    from ex have s1: "s1 = s\<lparr>insns_executed := R,
            bb_out := Some (w @ [fst (foreach_print_bb_freq B1)]),
            blocks := update_block h (\<lambda>i. i\<lparr>tb_dynamic_count := R\<rparr>)
               (snd (foreach_print_bb_freq B1))\<rparr>"
      by (simp add: exec_cross [OF info over out] R_def B1_def T_def n_def L_def)
    from True have "L \<le> T + n" by simp
    then have "unat R = unat (T + n) - unat L" unfolding R_def by (rule unat_sub)
    then have uR: "unat R \<le> unat T + unat n" by (simp add: uTn)
    from True have "unat L < unat T + unat n" by (simp add: word_less_nat_alt uTn)
    then have uR': "int (unat R) = int (unat T) + int (unat n) - int (unat L)"
      using \<open>unat R = unat (T + n) - unat L\<close> by (simp add: uTn)
    have R63: "unat R < 2 ^ 63" using uR Tn63 by simp
    have c63: "unat c < 2 ^ 63" using cn63 by simp
    have T63: "counts_nat (blocks s) < 2 ^ 63" using k1' Tn63 by simp
    have "printed_line_total (fst (foreach_print_bb_freq B1)) = counts_int B1"
      by (rule printed_line_total_foreach)
    also have "\<dots> = counts_int (blocks s) - sint c + sint (c + n - R)"
      unfolding B1_def
      using counts_int_update_block [OF dist info,
              of "\<lambda>i. i\<lparr>tb_dynamic_count := tb_dynamic_count i + n_insns i - R\<rparr>"]
      by (simp add: c_def n_def)
    also have "\<dots> = int (unat T) - int (unat c)
                      + (int (unat c) + int (unat n) - int (unat R))"
      by (simp only: counts_int_nat [OF T63] k1' sint_small [OF c63] sint_count [OF cn63 R63])
    finally have line: "printed_line_total (fst (foreach_print_bb_freq B1))
                          = int (unat T) + int (unat n) - int (unat R)" by simp
    have d2: "distinct (map fst (snd (foreach_print_bb_freq B1)))"
      using dist by (simp add: map_fst_reset B1_def map_fst_update_block)
    have m2: "map_of (snd (foreach_print_bb_freq B1)) h
                = Some (info\<lparr>tb_dynamic_count := 0\<rparr>)"
      using info by (simp add: map_of_reset B1_def map_of_update_block)
    have a: "counts_nat (blocks s1) = unat R"
      using counts_nat_update_block [OF d2 m2, of "\<lambda>i. i\<lparr>tb_dynamic_count := R\<rparr>"]
      by (simp add: s1 counts_nat_reset)
    have b: "insns_executed s1 = R" "bb_out s1 = Some (w @ [fst (foreach_print_bb_freq B1)])"
      by (simp_all add: s1)
    have "unat R \<le> E + unat n" using uR k2' by simp
    moreover have "printed_stream_total (w @ [fst (foreach_print_bb_freq B1)]) + int (unat R)
                     = printed_stream_total w + int (unat T) + int (unat n)"
      by (simp only: printed_stream_total_snoc line)
    ultimately show ?thesis using a b unfolding T_def n_def by simp
  qed
qed


lemma run_count:
  assumes "run s evs = Inr s'" and "bbv_inv s" and "bb_out s = Some w"
    and "counts_nat (blocks s) = unat (insns_executed s)"
    and "unat (insns_executed s) \<le> E"
    and "E + executed_count s evs < 2 ^ 63"
  shows "\<exists>w'. bb_out s' = Some w'
           \<and> counts_nat (blocks s') = unat (insns_executed s')
           \<and> unat (insns_executed s') \<le> E + executed_count s evs
           \<and> printed_stream_total w' + int (unat (insns_executed s'))
               = printed_stream_total w + int (unat (insns_executed s))
                 + int (executed_count s evs)"
  using assms
proof (induction evs arbitrary: s w E)
  case Nil
  then show ?case by simp
next
  case (Cons ev evs)
  show ?case
  proof (cases ev)
    case (Translate tb)
    from Cons.prems(1) Translate obtain s1 h where
      tr: "vcpu_tb_trans_bbv s tb = Inr (s1, h)" and rest: "run s1 evs = Inr s'"
      by (auto split: sum.splits)
    note t = trans_inv [OF tr Cons.prems(2)]
    have ec: "executed_count s (ev # evs) = executed_count s1 evs"
      using Translate tr by simp
    from t Cons.prems trans_counts_nat [OF tr] ec
    have p: "bbv_inv s1" "bb_out s1 = Some w"
      "counts_nat (blocks s1) = unat (insns_executed s1)" "unat (insns_executed s1) \<le> E"
      "E + executed_count s1 evs < 2 ^ 63" by simp_all
    from Cons.IH [OF rest p] t ec show ?thesis by simp
  next
    case (Execute h)
    from Cons.prems(1) Execute obtain s1 where
      ex: "vcpu_tb_exec s h = Inr s1" and rest: "run s1 evs = Inr s'"
      by (auto split: sum.splits)
    from ex obtain info where info: "map_of (blocks s) h = Some info"
      by (cases "map_of (blocks s) h") (simp_all add: exec_unknown)
    have ec: "executed_count s (ev # evs) = unat (n_insns info) + executed_count s1 evs"
      using Execute ex info by simp
    from Cons.prems(2) have dist: "distinct (map fst (blocks s))" by (simp add: bbv_inv_def)
    from Cons.prems(6) ec have small: "E + unat (n_insns info) < 2 ^ 63" by simp
    note e1 = exec_inv [OF ex Cons.prems(2)]
    from exec_count_step [OF ex dist Cons.prems(3) info Cons.prems(4) Cons.prems(5) small]
    obtain w1 where k: "counts_nat (blocks s1) = unat (insns_executed s1)"
      "unat (insns_executed s1) \<le> E + unat (n_insns info)" "bb_out s1 = Some w1"
      and eq1: "printed_stream_total w1 + int (unat (insns_executed s1))
                  = printed_stream_total w + int (unat (insns_executed s))
                    + int (unat (n_insns info))" by blast
    from Cons.prems(6) ec
    have small2: "E + unat (n_insns info) + executed_count s1 evs < 2 ^ 63"
      by (simp add: add.assoc)
    from e1 have inv1: "bbv_inv s1" by simp
    from Cons.IH [OF rest inv1 k(3) k(1) k(2) small2] obtain w' where
      w': "bb_out s' = Some w'" "counts_nat (blocks s') = unat (insns_executed s')"
      "unat (insns_executed s') \<le> E + unat (n_insns info) + executed_count s1 evs"
      and eq2: "printed_stream_total w' + int (unat (insns_executed s'))
                  = printed_stream_total w1 + int (unat (insns_executed s1))
                    + int (executed_count s1 evs)" by blast
    from eq1 eq2 have "printed_stream_total w' + int (unat (insns_executed s'))
                  = printed_stream_total w + int (unat (insns_executed s))
                    + int (executed_count s (ev # evs))"
      by (simp add: ec)
    with w' ec show ?thesis by (simp add: add.assoc)
  qed
qed

lemma printed_total_at_exit:
  assumes "qemu_plugin_install fopen_w argv = (0, Some s0)" and "bb_out s0 \<noteq> None"
    and "run s0 evs = Inr s" and "executed_count s0 evs < 2 ^ 63"
  shows "\<exists>w. bb_out (snd (plugin_exit_bbv s)) = Some w
           \<and> printed_stream_total w = int (executed_count s0 evs)"
proof -
  note i = installed_inv [OF assms(1,2)] install_initial [OF assms(1)]
  from i have a: "bbv_inv s0" "bb_out s0 = Some []"
    "counts_nat (blocks s0) = unat (insns_executed s0)" "unat (insns_executed s0) \<le> 0"
    by (simp_all add: counts_nat_def)
  from assms(4) have b: "0 + executed_count s0 evs < 2 ^ 63" by simp
  from run_count [OF assms(3) a b] i obtain w where
    w: "bb_out s = Some w" and k: "counts_nat (blocks s) = unat (insns_executed s)"
    and le: "unat (insns_executed s) \<le> executed_count s0 evs"
    and eq: "printed_stream_total w + int (unat (insns_executed s)) = int (executed_count s0 evs)"
    by (auto simp: printed_stream_total_def)
  from k le assms(4) have small: "counts_nat (blocks s) < 2 ^ 63" by simp
  have "bb_out (snd (plugin_exit_bbv s)) = Some (w @ [fst (foreach_print_bb_freq (blocks s))])"
    by (simp add: exit_bb_out flush_line [OF w])
  moreover have "printed_stream_total (w @ [fst (foreach_print_bb_freq (blocks s))])
                   = int (executed_count s0 evs)"
    using eq
    by (simp only: printed_stream_total_snoc printed_line_total_foreach
          counts_int_nat [OF small] k)
  ultimately show ?thesis by blast
qed

text \<open>
  C2. For every run with BBV output enabled, the counts of all lines of the BBV stream, the
  flush line written at shutdown included, add up to the number of instructions executed
  in the run. This holds of the \<open>uint64_t\<close> sums for every run, and of the numbers as
  they are printed whenever fewer than \<open>2 ^ 63\<close> instructions are executed.
\<close>

theorem bbv_stream_accounts_for_every_instruction:
  assumes "qemu_plugin_install fopen_w argv = (0, Some s0)" and "bb_out s0 \<noteq> None"
    and "run s0 evs = Inr s"
  shows "\<exists>w. bb_out (snd (plugin_exit_bbv s)) = Some w
           \<and> stream_total w = executed_total s0 evs
           \<and> (executed_count s0 evs < 2 ^ 63
                \<longrightarrow> printed_stream_total w = int (executed_count s0 evs))"
proof -
  from total_at_exit [OF assms] obtain w where
    w: "bb_out (snd (plugin_exit_bbv s)) = Some w"
    and t: "stream_total w = executed_total s0 evs" by blast
  have "printed_stream_total w = int (executed_count s0 evs)"
    if small: "executed_count s0 evs < 2 ^ 63"
  proof -
    from printed_total_at_exit [OF assms small] obtain w' where
      "bb_out (snd (plugin_exit_bbv s)) = Some w'"
      "printed_stream_total w' = int (executed_count s0 evs)" by blast
    with w show ?thesis by simp
  qed
  with w t show ?thesis by blast
qed

theorem bbv_stream_accounts_witness:
  "qemu_plugin_install always_opens [''bb-out-file=bbv.out'', ''interval-size=100'']
     = (0, Some (installed ''100''))
   \<and> bb_out (installed ''100'') \<noteq> None
   \<and> run (installed ''100'')
         [Translate (mk_tb 0x1000 40), Execute 0x1000, Execute 0x1000, Execute 0x1000]
       = Inr scenario_A_state
   \<and> executed_count (installed ''100'')
         [Translate (mk_tb 0x1000 40), Execute 0x1000, Execute 0x1000, Execute 0x1000] < 2 ^ 63
   \<and> (\<exists>w. bb_out (snd (plugin_exit_bbv scenario_A_state)) = Some w
         \<and> stream_total w
             = executed_total (installed ''100'')
                 [Translate (mk_tb 0x1000 40), Execute 0x1000, Execute 0x1000, Execute 0x1000]
         \<and> printed_stream_total w
             = int (executed_count (installed ''100'')
                 [Translate (mk_tb 0x1000 40), Execute 0x1000, Execute 0x1000, Execute 0x1000]))"
proof -
  have h2: "bb_out (installed ''100'') \<noteq> None" by (simp add: installed_100)
  have h4: "executed_count (installed ''100'')
         [Translate (mk_tb 0x1000 40), Execute 0x1000, Execute 0x1000, Execute 0x1000] < 2 ^ 63"
    by (simp add: installed_100 bbv_eval)
  from bbv_stream_accounts_for_every_instruction [OF install_100 h2 run_scenario_A] h4
  have "\<exists>w. bb_out (snd (plugin_exit_bbv scenario_A_state)) = Some w
         \<and> stream_total w
             = executed_total (installed ''100'')
                 [Translate (mk_tb 0x1000 40), Execute 0x1000, Execute 0x1000, Execute 0x1000]
         \<and> printed_stream_total w
             = int (executed_count (installed ''100'')
                 [Translate (mk_tb 0x1000 40), Execute 0x1000, Execute 0x1000, Execute 0x1000])"
    by blast
  with install_100 h2 run_scenario_A h4 show ?thesis by blast
qed

text \<open>
  C4. With interval size 100 and a single block of 40 instructions executed three times in
  a row, the BBV stream holds exactly one interval line, crediting block 0 with 100
  instructions, and the flush at shutdown adds one line crediting block 0 with 20.
\<close>

theorem scenario_A_interval_then_flush:
  "run (installed ''100'')
       [Translate (mk_tb 0x1000 40), Execute 0x1000, Execute 0x1000, Execute 0x1000]
     = Inr scenario_A_state
   \<and> bb_out scenario_A_state = Some [[(0, 100)]]
   \<and> fst (plugin_exit_bbv scenario_A_state) = None
   \<and> bb_out (snd (plugin_exit_bbv scenario_A_state)) = Some [[(0, 100)], [(0, 20)]]"
proof -
  have "bb_out scenario_A_state = Some [[(0, 100)]]"
    by (simp add: scenario_A_state_def)
  moreover have "fst (plugin_exit_bbv scenario_A_state) = None"
    by (simp add: scenario_A_state_def bbv_eval)
  moreover have "bb_out (snd (plugin_exit_bbv scenario_A_state)) = Some [[(0, 100)], [(0, 20)]]"
    by (simp add: scenario_A_state_def bbv_eval)
  ultimately show ?thesis
    using run_scenario_A by simp
qed

lemma mem_tbid_image: "(a, b) \<in> set bs \<Longrightarrow> tbid b \<in> (\<lambda>p. tbid (snd p)) ` set bs"
  by (rule image_eqI [where x = "(a, b)"]) simp_all

lemma credited_foreach:
  assumes "distinct (map (\<lambda>p. tbid (snd p)) bs)" and "(k, i) \<in> set bs"
  shows "credited (fst (foreach_print_bb_freq bs)) (tbid i) = tb_dynamic_count i"
  using assms
proof (induction bs)
  case Nil
  then show ?case by simp
next
  case (Cons p bs)
  let ?line = "map (\<lambda>p. (tbid (snd p), tb_dynamic_count (snd p)))
                 (filter (\<lambda>p. tb_dynamic_count (snd p) \<noteq> 0) bs)"
  from Cons.prems(1) have fresh: "tbid (snd p) \<notin> (\<lambda>p. tbid (snd p)) ` set bs"
    and dist: "distinct (map (\<lambda>p. tbid (snd p)) bs)" by simp_all
  show ?case
  proof (cases "p = (k, i)")
    case True
    have "fst ` set ?line \<subseteq> (\<lambda>p. tbid (snd p)) ` set bs"
      by (auto intro: mem_tbid_image)
    with fresh True have "tbid i \<notin> fst ` set ?line" by auto
    then have "map_of ?line (tbid i) = None" by (simp add: map_of_eq_None_iff)
    then show ?thesis using True
      by (simp add: fst_foreach credited_def del: foreach_print_bb_freq.simps)
  next
    case False
    with Cons.prems(2) have mem: "(k, i) \<in> set bs" by simp
    have "tbid i \<noteq> tbid (snd p)"
    proof
      assume eq: "tbid i = tbid (snd p)"
      have "tbid (snd p) \<in> (\<lambda>p. tbid (snd p)) ` set bs"
        using mem_tbid_image [OF mem] eq by simp
      with fresh show False by contradiction
    qed
    with Cons.IH [OF dist mem] show ?thesis
      by (simp add: fst_foreach credited_def del: foreach_print_bb_freq.simps)
  qed
qed

lemma overshoot_within_block:
  fixes T n L c :: u64
  assumes "unat T \<le> unat L" and "unat T + unat n < 2 ^ 64" and "L < T + n"
    and "unat c + unat n < 2 ^ 64"
  shows "unat (T + n - L) = unat T + unat n - unat L
         \<and> unat (T + n - L) \<le> unat n
         \<and> unat (c + n - (T + n - L)) = unat c + unat n - (unat T + unat n - unat L)"
proof -
  have "unat T + unat n < 2 ^ LENGTH(64)" using assms(2) by simp
  then have tn: "unat (T + n) = unat T + unat n" by (rule unat_add_lem [THEN iffD1])
  have "unat c + unat n < 2 ^ LENGTH(64)" using assms(4) by simp
  then have cn: "unat (c + n) = unat c + unat n" by (rule unat_add_lem [THEN iffD1])
  from assms(3) have "L \<le> T + n" by simp
  then have ov: "unat (T + n - L) = unat T + unat n - unat L"
    by (simp add: unat_sub tn)
  with assms(1) have le: "unat (T + n - L) \<le> unat n" by simp
  then have "T + n - L \<le> c + n" by (simp add: word_le_nat_alt cn)
  then have "unat (c + n - (T + n - L)) = unat (c + n) - unat (T + n - L)" by (rule unat_sub)
  with ov le cn show ?thesis by simp
qed

text \<open>
  C1. When one execution of a block pushes the running instruction total past the interval
  length, the sample that is emitted credits the triggering block with its interval count
  (this execution included) minus the overshoot, and after the emission the block's
  interval count, like the running total, is the overshoot. The arithmetic is that of
  \<open>uint64_t\<close>; when the running total had not passed the interval length before the
  execution and nothing overflows, the same holds of the numbers themselves, and the
  overshoot is at most the block's instruction count.
\<close>

theorem straddling_execution_is_split_at_the_boundary:
  assumes "qemu_plugin_install fopen_w argv = (0, Some s0)" and "bb_out s0 \<noteq> None"
    and "run s0 evs = Inr s"
    and info: "map_of (blocks s) h = Some info"
    and over: "insns_interval_length s < insns_executed s + n_insns info"
  shows "\<exists>s' w line.
           vcpu_tb_exec s h = Inr s' \<and> bb_out s = Some w \<and> bb_out s' = Some (w @ [line])
           \<and> credited line (tbid info)
               = tb_dynamic_count info + n_insns info
                 - (insns_executed s + n_insns info - insns_interval_length s)
           \<and> map_of (blocks s') h
               = Some (info\<lparr>tb_dynamic_count :=
                               insns_executed s + n_insns info - insns_interval_length s\<rparr>)
           \<and> insns_executed s' = insns_executed s + n_insns info - insns_interval_length s
           \<and> (unat (insns_executed s) \<le> unat (insns_interval_length s)
                \<and> unat (insns_executed s) + unat (n_insns info) < 2 ^ 64
                \<and> unat (tb_dynamic_count info) + unat (n_insns info) < 2 ^ 64
               \<longrightarrow> unat (credited line (tbid info))
                     = unat (tb_dynamic_count info) + unat (n_insns info)
                       - (unat (insns_executed s) + unat (n_insns info)
                          - unat (insns_interval_length s))
                   \<and> unat (insns_executed s + n_insns info - insns_interval_length s)
                       = unat (insns_executed s) + unat (n_insns info)
                         - unat (insns_interval_length s)
                   \<and> unat (insns_executed s + n_insns info - insns_interval_length s)
                       \<le> unat (n_insns info))"
proof -
  define R where "R = insns_executed s + n_insns info - insns_interval_length s"
  define B1 where "B1 = update_block h
               (\<lambda>i. i\<lparr>tb_dynamic_count := tb_dynamic_count i + n_insns i - R\<rparr>) (blocks s)"
  define s' where "s' = s\<lparr>insns_executed := R,
            bb_out := Some (the (bb_out s) @ [fst (foreach_print_bb_freq B1)]),
            blocks := update_block h (\<lambda>i. i\<lparr>tb_dynamic_count := R\<rparr>)
               (snd (foreach_print_bb_freq B1))\<rparr>"
  from reachable_accounting [OF assms(1,2,3)] obtain w where
    inv: "bbv_inv s" and w: "bb_out s = Some w" by blast
  have ex: "vcpu_tb_exec s h = Inr s'"
    by (simp add: exec_cross [OF info over w] s'_def R_def B1_def w)
  from inv have "distinct (map (\<lambda>p. tbid (snd p)) (blocks s))"
    by (simp add: bbv_inv_def ids_dense_distinct)
  then have d: "distinct (map (\<lambda>p. tbid (snd p)) B1)"
    by (simp add: B1_def map_tbid_update_block)
  have "map_of B1 h = Some (info\<lparr>tb_dynamic_count := tb_dynamic_count info + n_insns info - R\<rparr>)"
    using info by (simp add: B1_def map_of_update_block)
  then have "(h, info\<lparr>tb_dynamic_count := tb_dynamic_count info + n_insns info - R\<rparr>) \<in> set B1"
    by (rule map_of_SomeD)
  from credited_foreach [OF d this]
  have c: "credited (fst (foreach_print_bb_freq B1)) (tbid info)
             = tb_dynamic_count info + n_insns info - R" by simp
  have m: "map_of (blocks s') h = Some (info\<lparr>tb_dynamic_count := R\<rparr>)"
    using info by (simp add: s'_def map_of_update_block map_of_reset B1_def)
  have n: "unat (insns_executed s) \<le> unat (insns_interval_length s)
                \<and> unat (insns_executed s) + unat (n_insns info) < 2 ^ 64
                \<and> unat (tb_dynamic_count info) + unat (n_insns info) < 2 ^ 64
               \<longrightarrow> unat (credited (fst (foreach_print_bb_freq B1)) (tbid info))
                     = unat (tb_dynamic_count info) + unat (n_insns info)
                       - (unat (insns_executed s) + unat (n_insns info)
                          - unat (insns_interval_length s))
                   \<and> unat R = unat (insns_executed s) + unat (n_insns info)
                         - unat (insns_interval_length s)
                   \<and> unat R \<le> unat (n_insns info)"
    using overshoot_within_block [of "insns_executed s" "insns_interval_length s"
            "n_insns info" "tb_dynamic_count info"] over
    unfolding c R_def by blast
  have "bb_out s' = Some (w @ [fst (foreach_print_bb_freq B1)])" "insns_executed s' = R"
    by (simp_all add: s'_def w)
  with ex w c m n show ?thesis unfolding R_def by blast
qed

theorem straddling_execution_witness:
  "qemu_plugin_install always_opens [''bb-out-file=bbv.out'', ''interval-size=100'']
     = (0, Some (installed ''100''))
   \<and> bb_out (installed ''100'') \<noteq> None
   \<and> run (installed ''100'') [Translate (mk_tb 0x1000 40), Execute 0x1000, Execute 0x1000]
       = Inr scenario_A_before_third
   \<and> map_of (blocks scenario_A_before_third) 0x1000 = Some (snd (hd (blocks scenario_A_before_third)))
   \<and> insns_interval_length scenario_A_before_third
       < insns_executed scenario_A_before_third
         + n_insns (snd (hd (blocks scenario_A_before_third)))
   \<and> unat (insns_executed scenario_A_before_third)
       \<le> unat (insns_interval_length scenario_A_before_third)
   \<and> unat (insns_executed scenario_A_before_third)
       + unat (n_insns (snd (hd (blocks scenario_A_before_third)))) < 2 ^ 64
   \<and> unat (tb_dynamic_count (snd (hd (blocks scenario_A_before_third))))
       + unat (n_insns (snd (hd (blocks scenario_A_before_third)))) < 2 ^ 64
   \<and> (\<exists>s' w line.
         vcpu_tb_exec scenario_A_before_third 0x1000 = Inr s'
         \<and> bb_out scenario_A_before_third = Some w \<and> bb_out s' = Some (w @ [line])
         \<and> credited line 0 = 100
         \<and> map_option tb_dynamic_count (map_of (blocks s') 0x1000) = Some 20
         \<and> insns_executed s' = 20
         \<and> unat (credited line 0) = 80 + 40 - (80 + 40 - 100))"
proof -
  have h2: "bb_out (installed ''100'') \<noteq> None" by (simp add: installed_100)
  have h4: "map_of (blocks scenario_A_before_third) 0x1000
              = Some (snd (hd (blocks scenario_A_before_third)))"
    by (simp add: scenario_A_before_third_def)
  have h5: "insns_interval_length scenario_A_before_third
              < insns_executed scenario_A_before_third
                + n_insns (snd (hd (blocks scenario_A_before_third)))"
    by (simp add: scenario_A_before_third_def)
  have h6: "unat (insns_executed scenario_A_before_third)
              \<le> unat (insns_interval_length scenario_A_before_third)"
    "unat (insns_executed scenario_A_before_third)
       + unat (n_insns (snd (hd (blocks scenario_A_before_third)))) < 2 ^ 64"
    "unat (tb_dynamic_count (snd (hd (blocks scenario_A_before_third))))
       + unat (n_insns (snd (hd (blocks scenario_A_before_third)))) < 2 ^ 64"
    by (simp_all add: scenario_A_before_third_def)
  have v: "tbid (snd (hd (blocks scenario_A_before_third))) = 0"
    "tb_dynamic_count (snd (hd (blocks scenario_A_before_third)))
       + n_insns (snd (hd (blocks scenario_A_before_third))) - 20 = 100"
    "insns_executed scenario_A_before_third
       + n_insns (snd (hd (blocks scenario_A_before_third)))
       - insns_interval_length scenario_A_before_third = 20"
    by (simp_all add: scenario_A_before_third_def)
  have u: "unat (insns_executed scenario_A_before_third) = 80"
    "unat (n_insns (snd (hd (blocks scenario_A_before_third)))) = 40"
    "unat (tb_dynamic_count (snd (hd (blocks scenario_A_before_third)))) = 80"
    "unat (insns_interval_length scenario_A_before_third) = 100"
    by (simp_all add: scenario_A_before_third_def)
  from straddling_execution_is_split_at_the_boundary
         [OF install_100 h2 run_scenario_A_before_third h4 h5]
  obtain s' w line where r:
    "vcpu_tb_exec scenario_A_before_third 0x1000 = Inr s'"
    "bb_out scenario_A_before_third = Some w" "bb_out s' = Some (w @ [line])"
    "credited line 0 = 100"
    "map_of (blocks s') 0x1000
       = Some ((snd (hd (blocks scenario_A_before_third)))\<lparr>tb_dynamic_count := 20\<rparr>)"
    "insns_executed s' = 20"
    and n: "unat (insns_executed scenario_A_before_third)
                \<le> unat (insns_interval_length scenario_A_before_third)
             \<and> unat (insns_executed scenario_A_before_third)
                + unat (n_insns (snd (hd (blocks scenario_A_before_third)))) < 2 ^ 64
             \<and> unat (tb_dynamic_count (snd (hd (blocks scenario_A_before_third))))
                + unat (n_insns (snd (hd (blocks scenario_A_before_third)))) < 2 ^ 64
            \<longrightarrow> unat (credited line 0)
                  = unat (tb_dynamic_count (snd (hd (blocks scenario_A_before_third))))
                    + unat (n_insns (snd (hd (blocks scenario_A_before_third))))
                    - (unat (insns_executed scenario_A_before_third)
                       + unat (n_insns (snd (hd (blocks scenario_A_before_third))))
                       - unat (insns_interval_length scenario_A_before_third))
                \<and> unat (20 :: u64)
                    = unat (insns_executed scenario_A_before_third)
                      + unat (n_insns (snd (hd (blocks scenario_A_before_third))))
                      - unat (insns_interval_length scenario_A_before_third)
                \<and> unat (20 :: u64) \<le> unat (n_insns (snd (hd (blocks scenario_A_before_third))))"
    unfolding v by blast
  from n h6 have "unat (credited line 0)
                  = unat (tb_dynamic_count (snd (hd (blocks scenario_A_before_third))))
                    + unat (n_insns (snd (hd (blocks scenario_A_before_third))))
                    - (unat (insns_executed scenario_A_before_third)
                       + unat (n_insns (snd (hd (blocks scenario_A_before_third))))
                       - unat (insns_interval_length scenario_A_before_third))"
    by blast
  then have "unat (credited line 0) = 80 + 40 - (80 + 40 - 100)"
    unfolding u .
  with r have "\<exists>s' w line.
         vcpu_tb_exec scenario_A_before_third 0x1000 = Inr s'
         \<and> bb_out scenario_A_before_third = Some w \<and> bb_out s' = Some (w @ [line])
         \<and> credited line 0 = 100
         \<and> map_option tb_dynamic_count (map_of (blocks s') 0x1000) = Some 20
         \<and> insns_executed s' = 20
         \<and> unat (credited line 0) = 80 + 40 - (80 + 40 - 100)"
    by auto
  with install_100 h2 run_scenario_A_before_third h4 h5 h6 show ?thesis by blast
qed

lemma closing_line_printed_total:
  assumes dist: "distinct (map fst (blocks s))" and info: "map_of (blocks s) h = Some info"
    and k1: "counts_nat (blocks s) = unat (insns_executed s)"
    and k2: "unat (insns_executed s) \<le> E"
    and small: "E + unat (n_insns info) < 2 ^ 63"
    and over: "insns_interval_length s < insns_executed s + n_insns info"
  shows "printed_line_total (fst (foreach_print_bb_freq (update_block h
           (\<lambda>i. i\<lparr>tb_dynamic_count := tb_dynamic_count i + n_insns i
                  - (insns_executed s + n_insns info - insns_interval_length s)\<rparr>) (blocks s))))
         = int (unat (insns_interval_length s))"
proof -
  define T where "T = insns_executed s"
  define n where "n = n_insns info"
  define c where "c = tb_dynamic_count info"
  define L where "L = insns_interval_length s"
  define R where "R = T + n - L"
  define B1 where "B1 = update_block h
               (\<lambda>i. i\<lparr>tb_dynamic_count := tb_dynamic_count i + n_insns i - R\<rparr>) (blocks s)"
  have k1': "counts_nat (blocks s) = unat T" using k1 by (simp add: T_def)
  have k2': "unat T \<le> E" using k2 by (simp add: T_def)
  have small': "E + unat n < 2 ^ 63" using small by (simp add: n_def)
  have over': "L < T + n" using over by (simp add: L_def T_def n_def)
  have c_le: "unat c \<le> unat T"
    using count_le_counts_nat [OF info] k1' by (simp add: c_def)
  have Tn63: "unat T + unat n < 2 ^ 63" using k2' small' by simp
  have cn63: "unat c + unat n < 2 ^ 63" using c_le Tn63 by simp
  have "(2::nat) ^ 63 \<le> 2 ^ 64" by simp
  with Tn63 have "unat T + unat n < 2 ^ LENGTH(64)" by simp
  then have uTn: "unat (T + n) = unat T + unat n"
    by (simp only: unat_add_lem [THEN iffD1])
  from over' have "L \<le> T + n" by simp
  then have uR0: "unat R = unat (T + n) - unat L" unfolding R_def by (rule unat_sub)
  then have uR: "unat R \<le> unat T + unat n" by (simp add: uTn)
  from over' have "unat L < unat T + unat n" by (simp add: word_less_nat_alt uTn)
  then have uR': "int (unat R) = int (unat T) + int (unat n) - int (unat L)"
    using uR0 by (simp add: uTn)
  have R63: "unat R < 2 ^ 63" using uR Tn63 by simp
  have c63: "unat c < 2 ^ 63" using cn63 by simp
  have T63: "counts_nat (blocks s) < 2 ^ 63" using k1' Tn63 by simp
  have "printed_line_total (fst (foreach_print_bb_freq B1)) = counts_int B1"
    by (rule printed_line_total_foreach)
  also have "\<dots> = counts_int (blocks s) - sint c + sint (c + n - R)"
    unfolding B1_def
    using counts_int_update_block [OF dist info,
            of "\<lambda>i. i\<lparr>tb_dynamic_count := tb_dynamic_count i + n_insns i - R\<rparr>"]
    by (simp add: c_def n_def)
  also have "\<dots> = int (unat T) - int (unat c)
                    + (int (unat c) + int (unat n) - int (unat R))"
    by (simp only: counts_int_nat [OF T63] k1' sint_small [OF c63] sint_count [OF cn63 R63])
  also have "\<dots> = int (unat L)" using uR' by simp
  finally show ?thesis unfolding B1_def R_def T_def n_def L_def .
qed

lemma reachable_count:
  assumes "qemu_plugin_install fopen_w argv = (0, Some s0)" and "bb_out s0 \<noteq> None"
    and "run s0 evs = Inr s" and "executed_count s0 evs < 2 ^ 63"
  shows "counts_nat (blocks s) = unat (insns_executed s)
         \<and> unat (insns_executed s) \<le> executed_count s0 evs"
proof -
  note i = installed_inv [OF assms(1,2)] install_initial [OF assms(1)]
  from i have a: "bbv_inv s0" "bb_out s0 = Some []"
    "counts_nat (blocks s0) = unat (insns_executed s0)" "unat (insns_executed s0) \<le> 0"
    by (simp_all add: counts_nat_def)
  from assms(4) have b: "0 + executed_count s0 evs < 2 ^ 63" by simp
  from run_count [OF assms(3) a b] show ?thesis by auto
qed

lemma closing_line_total:
  assumes inv: "bbv_inv s" and acc: "counts_total (blocks s) = insns_executed s"
    and info: "map_of (blocks s) h = Some info"
  shows "line_total (fst (foreach_print_bb_freq (update_block h
           (\<lambda>i. i\<lparr>tb_dynamic_count := tb_dynamic_count i + n_insns i
                  - (insns_executed s + n_insns info - insns_interval_length s)\<rparr>) (blocks s))))
         = insns_interval_length s"
proof -
  from inv have dist: "distinct (map fst (blocks s))" by (simp add: bbv_inv_def)
  show ?thesis
    using acc by (simp add: line_total_foreach counts_total_update_block [OF dist info])
qed

lemma residual_exceeds:
  fixes T n L :: u64
  assumes "2 * unat L < unat T + unat n" and "unat T + unat n < 2 ^ 64"
  shows "L < T + n - L"
proof -
  have "unat T + unat n < 2 ^ LENGTH(64)" using assms(2) by simp
  then have sum: "unat (T + n) = unat T + unat n" by (rule unat_add_lem [THEN iffD1])
  with assms(1) have "L \<le> T + n" by (simp add: word_le_nat_alt)
  then have "unat (T + n - L) = unat (T + n) - unat L" by (rule unat_sub)
  with sum assms(1) show ?thesis by (simp add: word_less_nat_alt)
qed

text \<open>
  C10 as stated fails in its last part: with interval 10, a block of 100 instructions
  crosses nine boundaries in one execution, one sample is written and the residual running
  total is 90; the next execution of the block writes the next sample, and that sample
  again covers 10 instructions, not more.
\<close>

theorem next_sample_covers_the_interval_length_only:
  "\<not> isl (run (installed ''10'') [Translate (mk_tb 0x1000 100), Execute 0x1000, Execute 0x1000])
   \<and> bb_out (projr (run (installed ''10'') [Translate (mk_tb 0x1000 100), Execute 0x1000]))
       = Some [[(0, 10)]]
   \<and> insns_executed (projr (run (installed ''10'')
                        [Translate (mk_tb 0x1000 100), Execute 0x1000])) = 90
   \<and> bb_out (projr (run (installed ''10'')
                 [Translate (mk_tb 0x1000 100), Execute 0x1000, Execute 0x1000]))
       = Some [[(0, 10)], [(0, 10)]]
   \<and> line_total [(0, 10)] = 10"
  by (simp add: installed_10 bbv_eval line_total_def)

text \<open>
  C10, amended. With BBV output enabled, one execution of a block writes at most one
  sample: exactly one when the running total passes the interval length, none otherwise.
  Every sample written this way accounts for exactly the interval length (as a sum of
  \<open>uint64_t\<close> counts, and as a sum of the printed numbers while fewer than \<open>2 ^ 63\<close>
  instructions have been executed). When the execution crosses two or more boundaries, one sample is
  written and the residual running total exceeds the interval length; the excess stays in
  the running total and is not part of the next sample.
\<close>

theorem one_sample_of_interval_length_per_execution:
  assumes "qemu_plugin_install fopen_w argv = (0, Some s0)" and "bb_out s0 \<noteq> None"
    and "run s0 evs = Inr s"
    and info: "map_of (blocks s) h = Some info"
  shows "\<exists>s' w.
           vcpu_tb_exec s h = Inr s' \<and> bb_out s = Some w
           \<and> (if insns_interval_length s < insns_executed s + n_insns info
               then \<exists>line. bb_out s' = Some (w @ [line])
                           \<and> line_total line = insns_interval_length s
                           \<and> (executed_count s0 evs + unat (n_insns info) < 2 ^ 63
                                \<longrightarrow> printed_line_total line
                                      = int (unat (insns_interval_length s)))
               else bb_out s' = Some w)
           \<and> (2 * unat (insns_interval_length s) < unat (insns_executed s) + unat (n_insns info)
                \<and> unat (insns_executed s) + unat (n_insns info) < 2 ^ 64
               \<longrightarrow> (\<exists>line. bb_out s' = Some (w @ [line]))
                   \<and> insns_interval_length s < insns_executed s')"
proof -
  from reachable_accounting [OF assms(1,2,3)] obtain w where
    inv: "bbv_inv s" and acc: "counts_total (blocks s) = insns_executed s"
    and w: "bb_out s = Some w" by blast
  show ?thesis
  proof (cases "insns_interval_length s < insns_executed s + n_insns info")
    case False
    have "\<not> (2 * unat (insns_interval_length s) < unat (insns_executed s) + unat (n_insns info)
                \<and> unat (insns_executed s) + unat (n_insns info) < 2 ^ 64)"
    proof
      assume a: "2 * unat (insns_interval_length s) < unat (insns_executed s) + unat (n_insns info)
                \<and> unat (insns_executed s) + unat (n_insns info) < 2 ^ 64"
      then have "unat (insns_executed s) + unat (n_insns info) < 2 ^ LENGTH(64)" by simp
      then have "unat (insns_executed s + n_insns info)
                   = unat (insns_executed s) + unat (n_insns info)"
        by (rule unat_add_lem [THEN iffD1])
      with a have "insns_interval_length s < insns_executed s + n_insns info"
        by (simp add: word_less_nat_alt)
      with False show False by contradiction
    qed
    with False w show ?thesis by (simp add: exec_stay [OF info False])
  next
    case True
    note ec = exec_cross [OF info True w]
    note lt = closing_line_total [OF inv acc info]
    from inv have dist: "distinct (map fst (blocks s))" by (simp add: bbv_inv_def)
    have pl: "executed_count s0 evs + unat (n_insns info) < 2 ^ 63
              \<longrightarrow> printed_line_total (fst (foreach_print_bb_freq (update_block h
                     (\<lambda>i. i\<lparr>tb_dynamic_count := tb_dynamic_count i + n_insns i
                        - (insns_executed s + n_insns info - insns_interval_length s)\<rparr>)
                     (blocks s))))
                  = int (unat (insns_interval_length s))"
    proof
      assume small: "executed_count s0 evs + unat (n_insns info) < 2 ^ 63"
      then have "executed_count s0 evs < 2 ^ 63" by simp
      from reachable_count [OF assms(1,2,3) this]
      have k: "counts_nat (blocks s) = unat (insns_executed s)"
        "unat (insns_executed s) \<le> executed_count s0 evs" by simp_all
      show "printed_line_total (fst (foreach_print_bb_freq (update_block h
                     (\<lambda>i. i\<lparr>tb_dynamic_count := tb_dynamic_count i + n_insns i
                        - (insns_executed s + n_insns info - insns_interval_length s)\<rparr>)
                     (blocks s))))
                  = int (unat (insns_interval_length s))"
        by (rule closing_line_printed_total [OF dist info k small True])
    qed
    have "2 * unat (insns_interval_length s) < unat (insns_executed s) + unat (n_insns info)
                \<and> unat (insns_executed s) + unat (n_insns info) < 2 ^ 64
          \<longrightarrow> insns_interval_length s
                < insns_executed s + n_insns info - insns_interval_length s"
      by (simp add: residual_exceeds)
    with True w lt pl show ?thesis by (simp add: ec)
  qed
qed

theorem one_sample_witness:
  "qemu_plugin_install always_opens [''bb-out-file=bbv.out'', ''interval-size=10'']
     = (0, Some (installed ''10''))
   \<and> bb_out (installed ''10'') \<noteq> None
   \<and> run (installed ''10'') [Translate (mk_tb 0x1000 100)] = Inr long_block_state
   \<and> map_of (blocks long_block_state) 0x1000 = Some (snd (hd (blocks long_block_state)))
   \<and> 2 * unat (insns_interval_length long_block_state)
       < unat (insns_executed long_block_state)
         + unat (n_insns (snd (hd (blocks long_block_state))))
   \<and> unat (insns_executed long_block_state)
       + unat (n_insns (snd (hd (blocks long_block_state)))) < 2 ^ 64
   \<and> executed_count (installed ''10'') [Translate (mk_tb 0x1000 100)]
       + unat (n_insns (snd (hd (blocks long_block_state)))) < 2 ^ 63
   \<and> (\<exists>s' line. vcpu_tb_exec long_block_state 0x1000 = Inr s'
         \<and> bb_out s' = Some ([] @ [line]) \<and> line_total line = 10
         \<and> printed_line_total line = 10
         \<and> insns_interval_length long_block_state < insns_executed s')"
proof -
  have h2: "bb_out (installed ''10'') \<noteq> None" by (simp add: installed_10)
  have h4: "map_of (blocks long_block_state) 0x1000 = Some (snd (hd (blocks long_block_state)))"
    by (simp add: long_block_state_def)
  have h5: "2 * unat (insns_interval_length long_block_state)
              < unat (insns_executed long_block_state)
                + unat (n_insns (snd (hd (blocks long_block_state))))"
    by (simp add: long_block_state_def)
  have h6: "unat (insns_executed long_block_state)
              + unat (n_insns (snd (hd (blocks long_block_state)))) < 2 ^ 64"
    by (simp add: long_block_state_def)
  have h7: "executed_count (installed ''10'') [Translate (mk_tb 0x1000 100)]
              + unat (n_insns (snd (hd (blocks long_block_state)))) < 2 ^ 63"
    by (simp add: installed_10 bbv_eval long_block_state_def)
  have v: "insns_interval_length long_block_state
             < insns_executed long_block_state + n_insns (snd (hd (blocks long_block_state)))"
    "bb_out long_block_state = Some []" "insns_interval_length long_block_state = 10"
    by (simp_all add: long_block_state_def)
  from one_sample_of_interval_length_per_execution [OF install_10 h2 run_long_block h4]
  obtain s' w where
    a: "vcpu_tb_exec long_block_state 0x1000 = Inr s'" "bb_out long_block_state = Some w"
    and b: "if insns_interval_length long_block_state
                 < insns_executed long_block_state
                   + n_insns (snd (hd (blocks long_block_state)))
            then \<exists>line. bb_out s' = Some (w @ [line])
                     \<and> line_total line = insns_interval_length long_block_state
                     \<and> (executed_count (installed ''10'') [Translate (mk_tb 0x1000 100)]
                            + unat (n_insns (snd (hd (blocks long_block_state)))) < 2 ^ 63
                          \<longrightarrow> printed_line_total line
                                = int (unat (insns_interval_length long_block_state)))
            else bb_out s' = Some w"
    and c: "2 * unat (insns_interval_length long_block_state)
               < unat (insns_executed long_block_state)
                 + unat (n_insns (snd (hd (blocks long_block_state))))
             \<and> unat (insns_executed long_block_state)
                 + unat (n_insns (snd (hd (blocks long_block_state)))) < 2 ^ 64
            \<longrightarrow> (\<exists>line. bb_out s' = Some (w @ [line]))
                \<and> insns_interval_length long_block_state < insns_executed s'"
    by blast
  from a v have w: "w = []" by simp
  from b v(1) obtain line where l: "bb_out s' = Some (w @ [line])"
    "line_total line = insns_interval_length long_block_state"
    "executed_count (installed ''10'') [Translate (mk_tb 0x1000 100)]
        + unat (n_insns (snd (hd (blocks long_block_state)))) < 2 ^ 63
     \<longrightarrow> printed_line_total line = int (unat (insns_interval_length long_block_state))"
    by (simp only: if_True) blast
  from l(3) h7 have "printed_line_total line = int (unat (insns_interval_length long_block_state))"
    by blast
  then have p: "printed_line_total line = 10" by (simp add: v(3))
  from l w v have "bb_out s' = Some ([] @ [line])" "line_total line = 10" by simp_all
  moreover from c h5 h6 have "insns_interval_length long_block_state < insns_executed s'"
    by blast
  ultimately have "\<exists>s' line. vcpu_tb_exec long_block_state 0x1000 = Inr s'
         \<and> bb_out s' = Some ([] @ [line]) \<and> line_total line = 10
         \<and> printed_line_total line = 10
         \<and> insns_interval_length long_block_state < insns_executed s'"
    using a p by blast
  with install_10 h2 run_long_block h4 h5 h6 h7 show ?thesis by blast
qed

lemma crossing_exec_effect:
  assumes inv: "bbv_inv s" and acc: "counts_total (blocks s) = insns_executed s"
    and w: "bb_out s = Some w" and info: "map_of (blocks s) h = Some info"
    and over: "insns_interval_length s < insns_executed s + n_insns info"
  shows "\<exists>s' line.
           vcpu_tb_exec s h = Inr s' \<and> bb_out s' = Some (w @ [line])
           \<and> line_total line = insns_interval_length s
           \<and> credited line (tbid info)
               = tb_dynamic_count info + n_insns info
                 - (insns_executed s + n_insns info - insns_interval_length s)
           \<and> map_of (blocks s') h
               = Some (info\<lparr>tb_dynamic_count :=
                               insns_executed s + n_insns info - insns_interval_length s\<rparr>)
           \<and> insns_executed s' = insns_executed s + n_insns info - insns_interval_length s"
proof -
  define R where "R = insns_executed s + n_insns info - insns_interval_length s"
  define B1 where "B1 = update_block h
               (\<lambda>i. i\<lparr>tb_dynamic_count := tb_dynamic_count i + n_insns i - R\<rparr>) (blocks s)"
  define s' where "s' = s\<lparr>insns_executed := R,
            bb_out := Some (w @ [fst (foreach_print_bb_freq B1)]),
            blocks := update_block h (\<lambda>i. i\<lparr>tb_dynamic_count := R\<rparr>)
               (snd (foreach_print_bb_freq B1))\<rparr>"
  have ex: "vcpu_tb_exec s h = Inr s'"
    by (simp add: exec_cross [OF info over w] s'_def R_def B1_def)
  from inv have "distinct (map (\<lambda>p. tbid (snd p)) (blocks s))"
    by (simp add: bbv_inv_def ids_dense_distinct)
  then have d: "distinct (map (\<lambda>p. tbid (snd p)) B1)"
    by (simp add: B1_def map_tbid_update_block)
  have "map_of B1 h = Some (info\<lparr>tb_dynamic_count := tb_dynamic_count info + n_insns info - R\<rparr>)"
    using info by (simp add: B1_def map_of_update_block)
  then have "(h, info\<lparr>tb_dynamic_count := tb_dynamic_count info + n_insns info - R\<rparr>) \<in> set B1"
    by (rule map_of_SomeD)
  from credited_foreach [OF d this]
  have c: "credited (fst (foreach_print_bb_freq B1)) (tbid info)
             = tb_dynamic_count info + n_insns info - R" by simp
  have lt: "line_total (fst (foreach_print_bb_freq B1)) = insns_interval_length s"
    unfolding B1_def R_def by (rule closing_line_total [OF inv acc info])
  have m: "map_of (blocks s') h = Some (info\<lparr>tb_dynamic_count := R\<rparr>)"
    using info by (simp add: s'_def map_of_update_block map_of_reset B1_def)
  have "bb_out s' = Some (w @ [fst (foreach_print_bb_freq B1)])" "insns_executed s' = R"
    by (simp_all add: s'_def)
  with ex c m lt show ?thesis unfolding R_def by blast
qed

text \<open>
  C5 as stated fails: with interval 100, the second execution of a 50-instruction block
  lands exactly on the boundary; no sample has been written and the running total is 100,
  not 0.
\<close>

theorem exact_boundary_does_not_close:
  "\<not> isl (run (installed ''100'') [Translate (mk_tb 0x1000 50), Execute 0x1000, Execute 0x1000])
   \<and> bb_out (projr (run (installed ''100'')
                      [Translate (mk_tb 0x1000 50), Execute 0x1000, Execute 0x1000])) = Some []
   \<and> insns_executed (projr (run (installed ''100'')
                      [Translate (mk_tb 0x1000 50), Execute 0x1000, Execute 0x1000])) = 100"
  by (simp add: installed_100 bbv_eval)

text \<open>
  C5, amended. With BBV output enabled, an execution that lands exactly on the interval
  boundary leaves the interval open: no sample is written and the running total equals the
  interval length. The interval is closed by the next execution of a block that has
  instructions (the interval length plus its instruction count fitting in 64 bits). One
  sample is written then; it accounts for exactly the interval length and credits the
  closing block with the count it had before this execution, so all instructions of this
  execution go to the next interval: afterwards the block's interval count and the running
  total are the block's instruction count.
\<close>

theorem exact_boundary_leaves_the_interval_open:
  assumes "qemu_plugin_install fopen_w argv = (0, Some s0)" and "bb_out s0 \<noteq> None"
    and "run s0 evs = Inr s"
    and info: "map_of (blocks s) h = Some info"
    and exact: "unat (insns_executed s) + unat (n_insns info) = unat (insns_interval_length s)"
    and info2: "map_of (blocks s) h2 = Some info2"
    and nonempty: "n_insns info2 \<noteq> 0"
    and fits: "unat (insns_interval_length s) + unat (n_insns info2) < 2 ^ 64"
  shows "\<exists>s' s'' w line i2.
           vcpu_tb_exec s h = Inr s' \<and> bb_out s = Some w \<and> bb_out s' = Some w
           \<and> insns_executed s' = insns_interval_length s
           \<and> map_of (blocks s') h2 = Some i2 \<and> tbid i2 = tbid info2
           \<and> tb_dynamic_count i2
               = (if h2 = h then tb_dynamic_count info2 + n_insns info2
                  else tb_dynamic_count info2)
           \<and> vcpu_tb_exec s' h2 = Inr s'' \<and> bb_out s'' = Some (w @ [line])
           \<and> line_total line = insns_interval_length s
           \<and> credited line (tbid i2) = tb_dynamic_count i2
           \<and> map_of (blocks s'') h2 = Some (i2\<lparr>tb_dynamic_count := n_insns info2\<rparr>)
           \<and> insns_executed s'' = n_insns info2"
proof -
  from reachable_accounting [OF assms(1,2,3)] obtain w where
    inv: "bbv_inv s" and acc: "counts_total (blocks s) = insns_executed s"
    and out: "bb_out s = Some w" by blast
  define s' where "s' = s\<lparr>insns_executed := insns_executed s + n_insns info,
            blocks := update_block h (\<lambda>i. i\<lparr>tb_dynamic_count := tb_dynamic_count i + n_insns i\<rparr>)
                        (blocks s)\<rparr>"
  have sum: "insns_executed s + n_insns info = insns_interval_length s"
  proof -
    have "unat (insns_interval_length s) < 2 ^ LENGTH(64)" by (rule unsigned_less)
    with exact have "unat (insns_executed s) + unat (n_insns info) < 2 ^ LENGTH(64)" by simp
    then have "unat (insns_executed s + n_insns info)
                 = unat (insns_executed s) + unat (n_insns info)"
      by (rule unat_add_lem [THEN iffD1])
    with exact show ?thesis by (simp add: word_unat_eq_iff)
  qed
  then have stay: "\<not> insns_interval_length s < insns_executed s + n_insns info" by simp
  have ex1: "vcpu_tb_exec s h = Inr s'"
    by (simp add: exec_stay [OF info stay] s'_def)
  have f1: "bb_out s' = Some w" "insns_executed s' = insns_interval_length s"
    "insns_interval_length s' = insns_interval_length s"
    using out sum by (simp_all add: s'_def)
  have inv': "bbv_inv s'" using exec_inv [OF ex1 inv] by simp
  have acc': "counts_total (blocks s') = insns_executed s'"
    using exec_accounting [OF ex1 inv acc out info] by simp
  have "\<exists>i2. map_of (blocks s') h2 = Some i2 \<and> n_insns i2 = n_insns info2
          \<and> tbid i2 = tbid info2
          \<and> tb_dynamic_count i2
              = (if h2 = h then tb_dynamic_count info2 + n_insns info2
                 else tb_dynamic_count info2)"
    using info info2 by (cases "h2 = h") (simp_all add: s'_def map_of_update_block)
  then obtain i2 where i2: "map_of (blocks s') h2 = Some i2" and n2: "n_insns i2 = n_insns info2"
    and pin: "tbid i2 = tbid info2"
      "tb_dynamic_count i2
         = (if h2 = h then tb_dynamic_count info2 + n_insns info2 else tb_dynamic_count info2)"
    by blast
  have lt: "insns_interval_length s' < insns_executed s' + n_insns i2"
  proof -
    have "unat (insns_interval_length s) + unat (n_insns info2) < 2 ^ LENGTH(64)"
      using fits by simp
    then have "unat (insns_interval_length s + n_insns info2)
            = unat (insns_interval_length s) + unat (n_insns info2)"
      by (rule unat_add_lem [THEN iffD1])
    moreover have "0 < unat (n_insns info2)" using nonempty by (simp add: unat_gt_0)
    ultimately show ?thesis by (simp add: f1 n2 word_less_nat_alt)
  qed
  have r: "insns_executed s' + n_insns i2 - insns_interval_length s' = n_insns info2"
    by (simp add: f1 n2)
  from crossing_exec_effect [OF inv' acc' f1(1) i2 lt] obtain s'' line where
    "vcpu_tb_exec s' h2 = Inr s''" "bb_out s'' = Some (w @ [line])"
    "line_total line = insns_interval_length s'"
    "credited line (tbid i2) = tb_dynamic_count i2 + n_insns i2 - n_insns info2"
    "map_of (blocks s'') h2 = Some (i2\<lparr>tb_dynamic_count := n_insns info2\<rparr>)"
    "insns_executed s'' = n_insns info2"
    unfolding r by blast
  then have "vcpu_tb_exec s' h2 = Inr s''" "bb_out s'' = Some (w @ [line])"
    "line_total line = insns_interval_length s"
    "credited line (tbid i2) = tb_dynamic_count i2"
    "map_of (blocks s'') h2 = Some (i2\<lparr>tb_dynamic_count := n_insns info2\<rparr>)"
    "insns_executed s'' = n_insns info2"
    by (simp_all add: f1 n2)
  with ex1 out f1 i2 pin show ?thesis by blast
qed

theorem exact_boundary_witness:
  "qemu_plugin_install always_opens [''bb-out-file=bbv.out'', ''interval-size=100'']
     = (0, Some (installed ''100''))
   \<and> bb_out (installed ''100'') \<noteq> None
   \<and> run (installed ''100'') [Translate (mk_tb 0x1000 50), Execute 0x1000] = Inr half_way_state
   \<and> map_of (blocks half_way_state) 0x1000 = Some (snd (hd (blocks half_way_state)))
   \<and> unat (insns_executed half_way_state) + unat (n_insns (snd (hd (blocks half_way_state))))
       = unat (insns_interval_length half_way_state)
   \<and> n_insns (snd (hd (blocks half_way_state))) \<noteq> 0
   \<and> unat (insns_interval_length half_way_state)
       + unat (n_insns (snd (hd (blocks half_way_state)))) < 2 ^ 64
   \<and> (\<exists>s' s'' line i2.
         vcpu_tb_exec half_way_state 0x1000 = Inr s' \<and> bb_out s' = Some []
         \<and> insns_executed s' = 100
         \<and> map_of (blocks s') 0x1000 = Some i2
         \<and> vcpu_tb_exec s' 0x1000 = Inr s'' \<and> bb_out s'' = Some ([] @ [line])
         \<and> line_total line = 100
         \<and> credited line 0 = 100
         \<and> map_of (blocks s'') 0x1000 = Some (i2\<lparr>tb_dynamic_count := 50\<rparr>)
         \<and> insns_executed s'' = 50)"
proof -
  have h2: "bb_out (installed ''100'') \<noteq> None" by (simp add: installed_100)
  have h4: "map_of (blocks half_way_state) 0x1000 = Some (snd (hd (blocks half_way_state)))"
    by (simp add: half_way_state_def)
  have h5: "unat (insns_executed half_way_state)
              + unat (n_insns (snd (hd (blocks half_way_state))))
              = unat (insns_interval_length half_way_state)"
    by (simp add: half_way_state_def)
  have h6: "n_insns (snd (hd (blocks half_way_state))) \<noteq> 0"
    by (simp add: half_way_state_def)
  have h7: "unat (insns_interval_length half_way_state)
              + unat (n_insns (snd (hd (blocks half_way_state)))) < 2 ^ 64"
    by (simp add: half_way_state_def)
  have v: "insns_interval_length half_way_state = 100"
    "n_insns (snd (hd (blocks half_way_state))) = 50" "bb_out half_way_state = Some []"
    "tbid (snd (hd (blocks half_way_state))) = 0"
    "tb_dynamic_count (snd (hd (blocks half_way_state))) = 50"
    by (simp_all add: half_way_state_def)
  from exact_boundary_leaves_the_interval_open
         [OF install_100 h2 run_half_way h4 h5 h4 h6 h7]
  obtain s' s'' w line i2 where r:
    "vcpu_tb_exec half_way_state 0x1000 = Inr s'" "bb_out half_way_state = Some w"
    "bb_out s' = Some w" "insns_executed s' = 100" "map_of (blocks s') 0x1000 = Some i2"
    "vcpu_tb_exec s' 0x1000 = Inr s''" "bb_out s'' = Some (w @ [line])"
    "line_total line = 100" "credited line (tbid i2) = tb_dynamic_count i2"
    "map_of (blocks s'') 0x1000 = Some (i2\<lparr>tb_dynamic_count := 50\<rparr>)"
    "insns_executed s'' = 50"
    and p: "tbid i2 = 0"
      "tb_dynamic_count i2 = (if (0x1000 :: u64) = 0x1000 then 50 + 50 else 50)"
    unfolding v(1,2,4,5) by blast
  from r(2) v(3) have w: "w = []" by simp
  from r(9) p have "credited line 0 = 100" by simp
  with r have "\<exists>s' s'' line i2.
         vcpu_tb_exec half_way_state 0x1000 = Inr s' \<and> bb_out s' = Some []
         \<and> insns_executed s' = 100
         \<and> map_of (blocks s') 0x1000 = Some i2
         \<and> vcpu_tb_exec s' 0x1000 = Inr s'' \<and> bb_out s'' = Some ([] @ [line])
         \<and> line_total line = 100
         \<and> credited line 0 = 100
         \<and> map_of (blocks s'') 0x1000 = Some (i2\<lparr>tb_dynamic_count := 50\<rparr>)
         \<and> insns_executed s'' = 50"
    unfolding w by blast
  with install_100 h2 run_half_way h4 h5 h6 h7 show ?thesis by blast
qed

subsection \<open>The sort of the report\<close>

lemma mset_g_list_sort_merge: "mset (g_list_sort_merge c l1 l2) = mset l1 + mset l2"
  by (induction c l1 l2 rule: g_list_sort_merge.induct) auto

lemma set_g_list_sort_merge: "set (g_list_sort_merge c l1 l2) = set l1 \<union> set l2"
  by (induction c l1 l2 rule: g_list_sort_merge.induct) auto

lemma mset_g_list_sort: "mset (g_list_sort xs c) = mset xs"
proof (induction xs c rule: g_list_sort.induct)
  case (1 xs c)
  show ?case
  proof (cases "length xs \<le> 1")
    case True
    then show ?thesis by (simp add: g_list_sort.simps)
  next
    case False
    have "mset (take (length xs div 2) xs) + mset (drop (length xs div 2) xs) = mset xs"
      by (metis append_take_drop_id mset_append)
    with False 1 show ?thesis
      by (simp add: g_list_sort.simps [of xs] mset_g_list_sort_merge)
  qed
qed

lemma length_g_list_sort: "length (g_list_sort xs c) = length xs"
  by (metis mset_g_list_sort size_mset)

lemma merge_descending:
  "by_key_desc key c \<Longrightarrow> sorted_wrt (\<lambda>a b. key b \<le> key a) l1
   \<Longrightarrow> sorted_wrt (\<lambda>a b. key b \<le> key a) l2
   \<Longrightarrow> sorted_wrt (\<lambda>a b. key b \<le> key a) (g_list_sort_merge c l1 l2)"
proof (induction c l1 l2 rule: g_list_sort_merge.induct)
  case (3 c a l1 b l2)
  show ?case
  proof (cases "c a b \<le> 0")
    case True
    with 3(3) have "key b < key a" by (simp add: by_key_desc_def)
    with 3 True show ?thesis by (auto simp: set_g_list_sort_merge)
  next
    case False
    with 3(3) have "key a \<le> key b" by (simp add: by_key_desc_def not_less)
    with 3 False show ?thesis by (auto simp: set_g_list_sort_merge)
  qed
qed simp_all

lemma merge_ties:
  "by_key_desc key c \<Longrightarrow> sorted_wrt (\<lambda>a b. key b \<le> key a) l1
   \<Longrightarrow> sorted_wrt (\<lambda>a b. key b \<le> key a) l2
   \<Longrightarrow> filter (\<lambda>x. key x = v) (g_list_sort_merge c l1 l2)
       = filter (\<lambda>x. key x = v) l2 @ filter (\<lambda>x. key x = v) l1"
proof (induction c l1 l2 rule: g_list_sort_merge.induct)
  case (3 c a l1 b l2)
  show ?case
  proof (cases "c a b \<le> 0")
    case True
    with 3(3) have lt: "key b < key a" by (simp add: by_key_desc_def)
    show ?thesis
    proof (cases "key a = v")
      case eq: True
      have "filter (\<lambda>x. key x = v) (b # l2) = []"
        using 3(5) lt eq by (auto simp: filter_empty_conv)
      with 3 True eq show ?thesis by simp
    next
      case False
      with 3 True show ?thesis by simp
    qed
  next
    case False
    with 3 show ?thesis by simp
  qed
qed simp_all

lemma g_list_sort_descending:
  "by_key_desc key c \<Longrightarrow> sorted_wrt (\<lambda>a b. key b \<le> key a) (g_list_sort xs c)"
proof (induction xs c rule: g_list_sort.induct)
  case (1 xs c)
  show ?case
  proof (cases "length xs \<le> 1")
    case True
    then show ?thesis by (cases xs) (simp_all add: g_list_sort.simps)
  next
    case False
    with 1 show ?thesis
      by (simp add: g_list_sort.simps [of xs] merge_descending)
  qed
qed

lemma g_list_sort_ties:
  "by_key_desc key c \<Longrightarrow>
   filter (\<lambda>x. key x = v) (g_list_sort xs c) = rev (filter (\<lambda>x. key x = v) xs)"
proof (induction xs c rule: g_list_sort.induct)
  case (1 xs c)
  show ?case
  proof (cases "length xs \<le> 1")
    case True
    then show ?thesis by (cases xs) (simp_all add: g_list_sort.simps)
  next
    case False
    have split: "filter (\<lambda>x. key x = v) xs
                   = filter (\<lambda>x. key x = v) (take (length xs div 2) xs)
                     @ filter (\<lambda>x. key x = v) (drop (length xs div 2) xs)"
      by (metis append_take_drop_id filter_append)
    from False 1 show ?thesis
      by (simp add: g_list_sort.simps [of xs] merge_ties g_list_sort_descending split)
  qed
qed

lemma g_list_sort_is_reversed_stable_sort:
  assumes "by_key_desc key c"
  shows "g_list_sort xs c = rev (sort_key key xs)"
proof -
  have "sort_key key xs = rev (g_list_sort xs c)"
  proof (rule properties_for_sort_key)
    show "mset (rev (g_list_sort xs c)) = mset xs" by (simp add: mset_g_list_sort)
  next
    fix k
    have "filter (\<lambda>x. key x = key k) (rev (g_list_sort xs c)) = filter (\<lambda>x. key x = key k) xs"
      by (simp add: rev_filter [symmetric] g_list_sort_ties [OF assms])
    moreover have "(\<lambda>x. key k = key x) = (\<lambda>x. key x = key k)" by auto
    ultimately show "filter (\<lambda>x. key k = key x) (rev (g_list_sort xs c))
                       = filter (\<lambda>x. key k = key x) xs" by simp
  next
    have "sorted_wrt (\<lambda>a b. key b \<le> key a) (g_list_sort xs c)"
      by (rule g_list_sort_descending [OF assms])
    then show "sorted (map key (rev (g_list_sort xs c)))"
      by (simp add: sorted_map sorted_wrt_rev)
  qed
  then show ?thesis by simp
qed

lemma cmp_dynamic_insncount_by_key: "by_key_desc key_insns cmp_dynamic_insncount"
  by (simp add: by_key_desc_def cmp_dynamic_insncount_def key_insns_def)

lemma cmp_dynamic_execcount_by_key: "by_key_desc exec_count cmp_dynamic_execcount"
  by (simp add: by_key_desc_def cmp_dynamic_execcount_def)

subsection \<open>The hot-block report\<close>

lemma total_loop_butlast:
  "total_loop xs t = t + sum_list (map key_insns (butlast xs))"
  by (induction xs t rule: total_loop.induct) (simp_all add: key_insns_def algebra_simps)

lemma insns_loop_addr: "map row_addr (insns_loop xs t) = map start_addr (butlast xs)"
  by (induction xs t rule: insns_loop.induct) simp_all

lemma insns_loop_count: "map row_count (insns_loop xs t) = map key_insns (butlast xs)"
  by (induction xs t rule: insns_loop.induct) (simp_all add: key_insns_def algebra_simps)

lemma insns_loop_divisor: "map pct_divisor (insns_loop xs t) = replicate (length xs - 1) t"
  by (induction xs t rule: insns_loop.induct) simp_all

lemma execs_loop_addr: "map row_addr (execs_loop xs t) = map start_addr (butlast xs)"
  by (induction xs t rule: execs_loop.induct) simp_all

lemma execs_loop_count: "map row_count (execs_loop xs t) = map exec_count (butlast xs)"
  by (induction xs t rule: execs_loop.induct) simp_all

lemma execs_loop_divisor: "map pct_divisor (execs_loop xs t) = replicate (length xs - 1) t"
  by (induction xs t rule: execs_loop.induct) simp_all

lemma descending_rows:
  assumes "map row_count rows = map key (butlast xs)"
    and "sorted_wrt (\<lambda>a b. key b \<le> key a) xs"
  shows "sorted_wrt (\<lambda>a b. row_count b \<le> row_count a) rows"
proof -
  have "sorted_wrt (\<lambda>a b. key b \<le> key a) (butlast xs)"
    using assms(2) by (simp add: butlast_conv_take sorted_wrt_take)
  then have "sorted_wrt (\<lambda>x y. y \<le> x) (map key (butlast xs))"
    by (simp add: sorted_wrt_map)
  then have "sorted_wrt (\<lambda>x y. y \<le> x) (map row_count rows)"
    by (simp add: assms(1))
  then show ?thesis by (simp add: sorted_wrt_map)
qed

lemma sum_list_g_list_sort:
  fixes f :: "'a \<Rightarrow> u64"
  shows "sum_list (map f (g_list_sort xs c)) = sum_list (map f xs)"
proof -
  have "sum_mset (image_mset f (mset (g_list_sort xs c))) = sum_mset (image_mset f (mset xs))"
    by (simp add: mset_g_list_sort)
  then show ?thesis by (simp add: sum_mset_sum_list flip: mset_map)
qed

lemma total_plus_last:
  assumes "bs \<noteq> []"
  shows "dynamic_instruction_count (plugin_exit_hot bs)
           + key_insns (last (g_list_sort (g_hash_table_get_values bs) cmp_dynamic_insncount))
         = sum_dynamic bs"
proof -
  let ?S = "g_list_sort (g_hash_table_get_values bs) cmp_dynamic_insncount"
  from assms have "length ?S \<noteq> 0"
    by (simp add: length_g_list_sort g_hash_table_get_values_def)
  then have ne: "?S \<noteq> []" by auto
  have "sum_list (map key_insns (butlast ?S)) + key_insns (last ?S)
          = sum_list (map key_insns (butlast ?S @ [last ?S]))" by simp
  also have "\<dots> = sum_list (map key_insns ?S)" using ne by simp
  also have "\<dots> = sum_list (map key_insns (g_hash_table_get_values bs))"
    by (rule sum_list_g_list_sort)
  also have "\<dots> = sum_dynamic bs"
    by (simp add: sum_dynamic_def g_hash_table_get_values_def key_insns_def comp_def)
  finally show ?thesis
    by (simp add: plugin_exit_hot_def Let_def total_loop_butlast)
qed

lemma idle_blocks_table: "idle_blocks = idle_table [0x3000, 0x2000, 0x1000]"
  by (simp add: idle_blocks_def idle_table_def idle_block_def hot_eval)

lemmas idle_eval = idle_table_def idle_block_def exit_eval

text \<open>
  C6 as stated fails in its tie-break. Three blocks of one instruction are translated at
  \<open>0x3000\<close>, \<open>0x2000\<close>, \<open>0x1000\<close> in this order and never executed, so all keys are
  equal. In whichever of the six possible orders the table yields the three records, both
  sections list them in the reverse of that order (the last one is not listed): the sort
  does not keep equal keys in the order it receives them, so it is not stable. The rows
  are those of the insertion order, \<open>0x3000\<close> then \<open>0x2000\<close>, for one order of the table
  only, the exact reverse of the insertion order.
\<close>

theorem ties_are_reversed_whatever_the_table_order:
  "idle_blocks = idle_table [0x3000, 0x2000, 0x1000]
   \<and> map key_insns (g_hash_table_get_values idle_blocks) = [0, 0, 0]
   \<and> map exec_count (g_hash_table_get_values idle_blocks) = [0, 0, 0]
   \<and> map row_addr (by_insns (plugin_exit_hot (idle_table [0x1000, 0x2000, 0x3000]))) = [0x3000, 0x2000]
   \<and> map row_addr (by_insns (plugin_exit_hot (idle_table [0x1000, 0x3000, 0x2000]))) = [0x2000, 0x3000]
   \<and> map row_addr (by_insns (plugin_exit_hot (idle_table [0x2000, 0x1000, 0x3000]))) = [0x3000, 0x1000]
   \<and> map row_addr (by_insns (plugin_exit_hot (idle_table [0x2000, 0x3000, 0x1000]))) = [0x1000, 0x3000]
   \<and> map row_addr (by_insns (plugin_exit_hot (idle_table [0x3000, 0x1000, 0x2000]))) = [0x2000, 0x1000]
   \<and> map row_addr (by_insns (plugin_exit_hot (idle_table [0x3000, 0x2000, 0x1000]))) = [0x1000, 0x2000]
   \<and> map row_addr (by_execs (plugin_exit_hot (idle_table [0x1000, 0x2000, 0x3000]))) = [0x3000, 0x2000]
   \<and> map row_addr (by_execs (plugin_exit_hot (idle_table [0x1000, 0x3000, 0x2000]))) = [0x2000, 0x3000]
   \<and> map row_addr (by_execs (plugin_exit_hot (idle_table [0x2000, 0x1000, 0x3000]))) = [0x3000, 0x1000]
   \<and> map row_addr (by_execs (plugin_exit_hot (idle_table [0x2000, 0x3000, 0x1000]))) = [0x1000, 0x3000]
   \<and> map row_addr (by_execs (plugin_exit_hot (idle_table [0x3000, 0x1000, 0x2000]))) = [0x2000, 0x1000]
   \<and> map row_addr (by_execs (plugin_exit_hot (idle_table [0x3000, 0x2000, 0x1000]))) = [0x1000, 0x2000]"
proof -
  have k: "map key_insns (g_hash_table_get_values idle_blocks) = [0, 0, 0]"
    "map exec_count (g_hash_table_get_values idle_blocks) = [0, 0, 0]"
    by (simp_all add: idle_blocks_table idle_eval key_insns_def)
  have i: "map row_addr (by_insns (plugin_exit_hot (idle_table [0x1000, 0x2000, 0x3000]))) = [0x3000, 0x2000]"
    "map row_addr (by_insns (plugin_exit_hot (idle_table [0x1000, 0x3000, 0x2000]))) = [0x2000, 0x3000]"
    "map row_addr (by_insns (plugin_exit_hot (idle_table [0x2000, 0x1000, 0x3000]))) = [0x3000, 0x1000]"
    "map row_addr (by_insns (plugin_exit_hot (idle_table [0x2000, 0x3000, 0x1000]))) = [0x1000, 0x3000]"
    "map row_addr (by_insns (plugin_exit_hot (idle_table [0x3000, 0x1000, 0x2000]))) = [0x2000, 0x1000]"
    "map row_addr (by_insns (plugin_exit_hot (idle_table [0x3000, 0x2000, 0x1000]))) = [0x1000, 0x2000]"
    by (simp_all add: idle_eval)
  have e: "map row_addr (by_execs (plugin_exit_hot (idle_table [0x1000, 0x2000, 0x3000]))) = [0x3000, 0x2000]"
    "map row_addr (by_execs (plugin_exit_hot (idle_table [0x1000, 0x3000, 0x2000]))) = [0x2000, 0x3000]"
    "map row_addr (by_execs (plugin_exit_hot (idle_table [0x2000, 0x1000, 0x3000]))) = [0x3000, 0x1000]"
    "map row_addr (by_execs (plugin_exit_hot (idle_table [0x2000, 0x3000, 0x1000]))) = [0x1000, 0x3000]"
    "map row_addr (by_execs (plugin_exit_hot (idle_table [0x3000, 0x1000, 0x2000]))) = [0x2000, 0x1000]"
    "map row_addr (by_execs (plugin_exit_hot (idle_table [0x3000, 0x2000, 0x1000]))) = [0x1000, 0x2000]"
    by (simp_all add: idle_eval)
  from idle_blocks_table k i e show ?thesis by simp
qed

text \<open>
  C6, amended. Each section is in descending order of its key (for two rows A before B, the
  count of A is at least the count of B; the key of the first section is the \<open>uint64_t\<close>
  product \<open>exec_count * n_insns\<close>). The order is the reverse of the stable ascending sort
  of the table traversal, without its last element: blocks with equal keys are listed in the
  reverse of the order in which the table yields them, not in insertion order, because the
  comparison functions never return 0.
\<close>

theorem sections_descend_with_ties_reversed:
  "sorted_wrt (\<lambda>a b. row_count b \<le> row_count a) (by_insns (plugin_exit_hot bs))
   \<and> sorted_wrt (\<lambda>a b. row_count b \<le> row_count a) (by_execs (plugin_exit_hot bs))
   \<and> map row_addr (by_insns (plugin_exit_hot bs))
       = map start_addr (butlast (rev (sort_key key_insns (g_hash_table_get_values bs))))
   \<and> map row_count (by_insns (plugin_exit_hot bs))
       = map key_insns (butlast (rev (sort_key key_insns (g_hash_table_get_values bs))))
   \<and> map row_addr (by_execs (plugin_exit_hot bs))
       = map start_addr (butlast (rev (sort_key exec_count (g_hash_table_get_values bs))))
   \<and> map row_count (by_execs (plugin_exit_hot bs))
       = map exec_count (butlast (rev (sort_key exec_count (g_hash_table_get_values bs))))"
proof -
  let ?vs = "g_hash_table_get_values bs"
  let ?t = "total_loop (g_list_sort ?vs cmp_dynamic_insncount) 0"
  have i: "by_insns (plugin_exit_hot bs) = insns_loop (g_list_sort ?vs cmp_dynamic_insncount) ?t"
    and e: "by_execs (plugin_exit_hot bs) = execs_loop (g_list_sort ?vs cmp_dynamic_execcount) ?t"
    by (simp_all add: plugin_exit_hot_def Let_def)
  note si = g_list_sort_is_reversed_stable_sort [OF cmp_dynamic_insncount_by_key, of ?vs]
  note se = g_list_sort_is_reversed_stable_sort [OF cmp_dynamic_execcount_by_key, of ?vs]
  have "sorted_wrt (\<lambda>a b. row_count b \<le> row_count a) (by_insns (plugin_exit_hot bs))"
    unfolding i
    by (rule descending_rows [OF insns_loop_count
          g_list_sort_descending [OF cmp_dynamic_insncount_by_key]])
  moreover have "sorted_wrt (\<lambda>a b. row_count b \<le> row_count a) (by_execs (plugin_exit_hot bs))"
    unfolding e
    by (rule descending_rows [OF execs_loop_count
          g_list_sort_descending [OF cmp_dynamic_execcount_by_key]])
  moreover have "map row_addr (by_insns (plugin_exit_hot bs))
       = map start_addr (butlast (rev (sort_key key_insns ?vs)))"
    unfolding i insns_loop_addr si ..
  moreover have "map row_count (by_insns (plugin_exit_hot bs))
       = map key_insns (butlast (rev (sort_key key_insns ?vs)))"
    unfolding i insns_loop_count si ..
  moreover have "map row_addr (by_execs (plugin_exit_hot bs))
       = map start_addr (butlast (rev (sort_key exec_count ?vs)))"
    unfolding e execs_loop_addr se ..
  moreover have "map row_count (by_execs (plugin_exit_hot bs))
       = map exec_count (butlast (rev (sort_key exec_count ?vs)))"
    unfolding e execs_loop_count se ..
  ultimately show ?thesis by blast
qed


text \<open>
  C8 as stated fails: for three translated blocks that were never executed the total is 0,
  and every row of both sections is printed with the quotient \<open>0 * 100 / 0\<close>.
\<close>

theorem zero_total_divides_by_zero:
  "dynamic_instruction_count (plugin_exit_hot idle_blocks) = 0
   \<and> map pct_dividend (by_insns (plugin_exit_hot idle_blocks)) = [0, 0]
   \<and> map pct_divisor (by_insns (plugin_exit_hot idle_blocks)) = [0, 0]
   \<and> map pct_dividend (by_execs (plugin_exit_hot idle_blocks)) = [0, 0]
   \<and> map pct_divisor (by_execs (plugin_exit_hot idle_blocks)) = [0, 0]"
  by (simp add: idle_blocks_def hot_eval exit_eval)


text \<open>
  C8, amended. When the total dynamic instruction count is zero at shutdown, the report is
  produced as for any other total: each section prints its rows, and the percentage of
  every row that is printed is the floating-point quotient whose divisor is the zero
  total. No guard and no separate output for this case exist.
\<close>

theorem zero_total_is_not_guarded:
  assumes "dynamic_instruction_count (plugin_exit_hot bs) = 0"
  shows "map pct_divisor (by_insns (plugin_exit_hot bs)) = replicate (length bs - 1) 0
         \<and> map pct_divisor (by_execs (plugin_exit_hot bs)) = replicate (length bs - 1) 0"
proof -
  let ?vs = "g_hash_table_get_values bs"
  let ?t = "total_loop (g_list_sort ?vs cmp_dynamic_insncount) 0"
  have i: "by_insns (plugin_exit_hot bs) = insns_loop (g_list_sort ?vs cmp_dynamic_insncount) ?t"
    and e: "by_execs (plugin_exit_hot bs) = execs_loop (g_list_sort ?vs cmp_dynamic_execcount) ?t"
    and t: "dynamic_instruction_count (plugin_exit_hot bs) = ?t"
    by (simp_all add: plugin_exit_hot_def Let_def)
  from assms t have z: "?t = 0" by simp
  show ?thesis
    unfolding i e insns_loop_divisor execs_loop_divisor z
    by (simp add: length_g_list_sort g_hash_table_get_values_def)
qed


theorem zero_total_witness:
  "dynamic_instruction_count (plugin_exit_hot idle_blocks) = 0
   \<and> map pct_divisor (by_insns (plugin_exit_hot idle_blocks)) = replicate (length idle_blocks - 1) 0
   \<and> map pct_divisor (by_execs (plugin_exit_hot idle_blocks)) = replicate (length idle_blocks - 1) 0"
proof -
  have h: "dynamic_instruction_count (plugin_exit_hot idle_blocks) = 0"
    by (simp add: idle_blocks_def hot_eval exit_eval)
  from zero_total_is_not_guarded [OF h] h show ?thesis by blast
qed


text \<open>
  C3. The summing loop stops at the cell whose \<open>next\<close> is \<open>NULL\<close>, so the total leaves
  out the last block of the sorted list (see \<open>total_plus_last\<close>). For block 0 with 10
  instructions executed 5 times and block 1 with 20 instructions executed once the sum
  over all blocks is 70 and the total that is printed and used as divisor is 50.
\<close>

theorem total_omits_the_last_block:
  "dynamic_instruction_count (plugin_exit_hot scenario_B_blocks) = 50
   \<and> sum_dynamic scenario_B_blocks = 70"
  by (simp add: scenario_B_blocks_def hot_eval exit_eval sum_dynamic_def)

subsection \<open>Installation and re-translation\<close>

lemma parse_options_None_iff:
  "parse_options argv acc = None \<longleftrightarrow> \<not> list_all recognised_option argv"
  by (induction argv acc rule: parse_options.induct) (auto simp: recognised_option_def)

lemma parse_options_append:
  "parse_options (argv @ argv') acc
     = (case parse_options argv acc of None \<Rightarrow> None | Some acc' \<Rightarrow> parse_options argv' acc')"
  by (induction argv acc rule: parse_options.induct) auto

lemma parse_interval_size:
  "parse_options [''interval-size='' @ v] (b, p, i) = Some (b, p, g_ascii_strtoull v)"
  by (simp add: g_str_has_prefix_def)

lemma install_result:
  "fst (qemu_plugin_install fopen_w argv) = (if list_all recognised_option argv then 0 else - 1)"
proof (cases "parse_options argv (None, None, insns_interval_length bbv_globals)")
  case None
  then show ?thesis
    using parse_options_None_iff [of argv "(None, None, insns_interval_length bbv_globals)"]
    by (simp add: qemu_plugin_install_def)
next
  case (Some r)
  then show ?thesis
    using parse_options_None_iff [of argv "(None, None, insns_interval_length bbv_globals)"]
    by (simp add: qemu_plugin_install_def split: prod.splits)
qed

text \<open>
  C9 as stated fails: \<open>interval-size=0\<close> is accepted, installation returns 0 with an
  interval length of 0, and the first execution does not fail either (it writes an empty
  sample).
\<close>

theorem interval_zero_is_accepted:
  "qemu_plugin_install always_opens [''bb-out-file=bbv.out'', ''interval-size=0'']
     = (0, Some (bbv_globals\<lparr>insns_interval_length := 0, bb_out := Some []\<rparr>))
   \<and> \<not> isl (run (installed ''0'') [Translate (mk_tb 0x1000 40), Execute 0x1000])
   \<and> bb_out (projr (run (installed ''0'') [Translate (mk_tb 0x1000 40), Execute 0x1000]))
       = Some [[]]"
  by (simp add: install_eval bbv_eval)


text \<open>
  C9, amended. Installation fails (returns -1) exactly when an option is not recognised.
  The value of \<open>interval-size\<close> is stored as \<open>g_ascii_strtoull\<close> converts it and is not
  checked: an interval length of zero is accepted.
\<close>

theorem interval_length_is_stored_unchecked:
  "fst (qemu_plugin_install fopen_w argv) = (if list_all recognised_option argv then 0 else - 1)
   \<and> (list_all recognised_option argv \<longrightarrow>
        (\<exists>s. qemu_plugin_install fopen_w (argv @ [''interval-size='' @ v]) = (0, Some s)
             \<and> insns_interval_length s = g_ascii_strtoull v))"
proof -
  have "\<exists>s. qemu_plugin_install fopen_w (argv @ [''interval-size='' @ v]) = (0, Some s)
             \<and> insns_interval_length s = g_ascii_strtoull v"
    if ok: "list_all recognised_option argv"
  proof -
    from ok obtain b p i where
      "parse_options argv (None, None, insns_interval_length bbv_globals) = Some (b, p, i)"
      using parse_options_None_iff [of argv "(None, None, insns_interval_length bbv_globals)"]
      by (cases "parse_options argv (None, None, insns_interval_length bbv_globals)") auto
    then have "parse_options (argv @ [''interval-size='' @ v])
                 (None, None, insns_interval_length bbv_globals)
               = Some (b, p, g_ascii_strtoull v)"
      by (simp only: parse_options_append option.case parse_interval_size)
    then show ?thesis by (simp add: qemu_plugin_install_def)
  qed
  with install_result show ?thesis by blast
qed


theorem interval_length_witness:
  "fst (qemu_plugin_install always_opens [''bb-out-file=bbv.out'']) = 0
   \<and> list_all recognised_option [''bb-out-file=bbv.out'']
   \<and> (\<exists>s. qemu_plugin_install always_opens ([''bb-out-file=bbv.out''] @ [''interval-size='' @ ''0''])
              = (0, Some s)
         \<and> insns_interval_length s = g_ascii_strtoull ''0'')
   \<and> g_ascii_strtoull ''0'' = 0"
proof -
  have h: "list_all recognised_option [''bb-out-file=bbv.out'']"
    by (simp add: recognised_option_def g_str_has_prefix_def)
  have z: "g_ascii_strtoull ''0'' = 0"
    by (simp add: g_ascii_strtoull_def g_ascii_isspace_def g_ascii_isdigit_def)
  from interval_length_is_stored_unchecked [of always_opens "[''bb-out-file=bbv.out'']" "''0''"] h z
  show ?thesis by simp
qed


text \<open>
  C7. Translating a block whose start address is already in the table inserts no record.
  In the hot-block plugin the existing record has its \<open>trans_count\<close> incremented and is
  otherwise unchanged (\<open>exec_count\<close>, \<open>n_insns\<close>, the instruction snapshot, the symbol),
  and no other record changes. In the BBV plugin, whose records carry the block id
  \<open>tbid\<close>, nothing changes at all.
\<close>

theorem retranslation_only_counts_the_translation:
  assumes "map_of bs (tb_vaddr tb) = Some cnt"
    and "map_of (blocks s) (tb_vaddr tb') = Some info"
  shows "(\<exists>bs'. vcpu_tb_trans_hot bs tb = Inr (bs', tb_vaddr tb)
            \<and> map fst bs' = map fst bs
            \<and> map_of bs' (tb_vaddr tb) = Some (cnt\<lparr>trans_count := trans_count cnt + 1\<rparr>)
            \<and> (\<forall>k. k \<noteq> tb_vaddr tb \<longrightarrow> map_of bs' k = map_of bs k))
         \<and> vcpu_tb_trans_bbv s tb' = Inr (s, tb_vaddr tb')"
proof -
  let ?bs' = "update_block (tb_vaddr tb) (\<lambda>c. c\<lparr>trans_count := trans_count c + 1\<rparr>) bs"
  have "vcpu_tb_trans_hot bs tb = Inr (?bs', tb_vaddr tb)"
    using assms(1) by (simp add: vcpu_tb_trans_hot_def qemu_plugin_tb_vaddr_def Let_def)
  moreover have "map fst ?bs' = map fst bs" by (rule map_fst_update_block)
  moreover have "map_of ?bs' (tb_vaddr tb) = Some (cnt\<lparr>trans_count := trans_count cnt + 1\<rparr>)"
    using assms(1) by (simp add: map_of_update_block)
  moreover have "\<forall>k. k \<noteq> tb_vaddr tb \<longrightarrow> map_of ?bs' k = map_of bs k"
    by (simp add: map_of_update_block)
  ultimately show ?thesis using trans_known [OF assms(2)] by blast
qed

theorem retranslation_witness:
  "map_of scenario_B_blocks (tb_vaddr (mk_tb 0x1000 10)) = Some (snd (hd scenario_B_blocks))
   \<and> map_of (blocks scenario_A_state) (tb_vaddr (mk_tb 0x1000 40))
       = Some (snd (hd (blocks scenario_A_state)))
   \<and> (\<exists>bs'. vcpu_tb_trans_hot scenario_B_blocks (mk_tb 0x1000 10)
               = Inr (bs', tb_vaddr (mk_tb 0x1000 10))
          \<and> map fst bs' = map fst scenario_B_blocks
          \<and> map_of bs' (tb_vaddr (mk_tb 0x1000 10))
              = Some ((snd (hd scenario_B_blocks))
                       \<lparr>trans_count := trans_count (snd (hd scenario_B_blocks)) + 1\<rparr>)
          \<and> map_of bs' 0x2000 = map_of scenario_B_blocks 0x2000)
   \<and> vcpu_tb_trans_bbv scenario_A_state (mk_tb 0x1000 40)
       = Inr (scenario_A_state, tb_vaddr (mk_tb 0x1000 40))"
proof -
  have ne: "(0x2000 :: u64) \<noteq> tb_vaddr (mk_tb 0x1000 10)" by (simp add: mk_tb_def)
  have h1: "map_of scenario_B_blocks (tb_vaddr (mk_tb 0x1000 10)) = Some (snd (hd scenario_B_blocks))"
    by (simp add: scenario_B_blocks_def hot_eval)
  have h2: "map_of (blocks scenario_A_state) (tb_vaddr (mk_tb 0x1000 40))
              = Some (snd (hd (blocks scenario_A_state)))"
    by (simp add: scenario_A_state_def mk_tb_def)
  from retranslation_only_counts_the_translation [OF h1 h2] ne h1 h2 show ?thesis by blast
qed

end
